theory Spec2Isabelle
  imports Main "HOL-Library.Multiset"
begin

section \<open>Data model\<close>

text \<open>
  The kernels of \<^verbatim>\<open>sparsetools.h\<close> are templates over an index type \<open>I\<close> and a value
  type \<open>T\<close>. Index arrays (\<open>Ap\<close>, \<open>Aj\<close>, the work array \<open>next\<close>) hold signed integers:
  the accumulator stores the sentinels \<open>-1\<close> (column not visited) and \<open>-2\<close> (end of the
  list) next to column numbers, so they are \<open>int list\<close>. Value arrays are lists over a type
  with \<open>0\<close> and \<open>+\<close> (and \<open>*\<close> for the matrix product). Dimensions (\<open>n_row\<close>, \<open>n_col\<close>,
  \<open>nnz\<close>) are counts, of type \<open>nat\<close>. An array cell \<open>a[i]\<close> with \<open>i\<close> of the index type
  is \<open>a ! nat i\<close>. Reading or writing outside an array is undefined behaviour of the C++
  source; the theorems below assume the validity conditions (\<open>csr_valid\<close>, \<open>coo_valid\<close>)
  under which every access is in range.
\<close>

text \<open>The index range \<open>for(I jj = lo; jj < hi; jj++)\<close>.\<close>

definition span :: "int \<Rightarrow> int \<Rightarrow> nat list" where
  "span lo hi = [nat lo ..< nat hi]"

text \<open>The slice \<open>[Ap[i], Ap[i+1])\<close> of row \<open>i\<close>.\<close>

definition row_span :: "int list \<Rightarrow> nat \<Rightarrow> nat list" where
  "row_span Ap i = span (Ap ! i) (Ap ! (i + 1))"

text \<open>The stored (column, value) pairs of row \<open>i\<close>, in storage order.\<close>

definition row_entries :: "int list \<Rightarrow> int list \<Rightarrow> 'a list \<Rightarrow> nat \<Rightarrow> (int \<times> 'a) list" where
  "row_entries Ap Aj Ax i = map (\<lambda>jj. (Aj ! jj, Ax ! jj)) (row_span Ap i)"

text \<open>The (row, column, value) triples of a compressed matrix, row by row.\<close>

definition csr_triples :: "nat \<Rightarrow> int list \<Rightarrow> int list \<Rightarrow> 'a list \<Rightarrow> (int \<times> int \<times> 'a) list" where
  "csr_triples n_row Ap Aj Ax =
     concat (map (\<lambda>i. map (\<lambda>(j, v). (int i, j, v)) (row_entries Ap Aj Ax i)) [0..<n_row])"

text \<open>
  A valid compressed matrix: a pointer array of length \<open>n_row + 1\<close> that starts at 0, does
  not decrease and ends at the number \<open>nnz\<close> of stored entries; index and value arrays
  that hold at least \<open>nnz\<close> cells; and inner indices in \<open>[0, n_col)\<close> in the first
  \<open>nnz\<close> cells.
\<close>

definition csr_valid :: "nat \<Rightarrow> nat \<Rightarrow> int list \<Rightarrow> int list \<Rightarrow> 'a list \<Rightarrow> bool" where
  "csr_valid n_row n_col Ap Aj Ax \<longleftrightarrow>
     length Ap = n_row + 1 \<and> Ap ! 0 = 0 \<and> sorted Ap \<and>
     Ap ! n_row \<le> int (length Aj) \<and> Ap ! n_row \<le> int (length Ax) \<and>
     list_all (\<lambda>j. 0 \<le> j \<and> j < int n_col) (take (nat (Ap ! n_row)) Aj)"

text \<open>A valid coordinate matrix: three sequences of length \<open>nnz\<close>, indices in range.\<close>

definition coo_valid :: "nat \<Rightarrow> nat \<Rightarrow> nat \<Rightarrow> int list \<Rightarrow> int list \<Rightarrow> 'a list \<Rightarrow> bool" where
  "coo_valid n_row n_col nnz Ai Aj Ax \<longleftrightarrow>
     length Ai = nnz \<and> length Aj = nnz \<and> length Ax = nnz \<and>
     list_all (\<lambda>i. 0 \<le> i \<and> i < int n_row) Ai \<and> list_all (\<lambda>j. 0 \<le> j \<and> j < int n_col) Aj"

section \<open>The sparse accumulator\<close>

text \<open>
  \<^verbatim>\<open>if(next[k] == -1){ next[k] = head; head = k; length++; }\<close>
  The state is (\<open>next\<close>, \<open>head\<close>, \<open>length\<close>).
\<close>

definition link :: "int \<Rightarrow> int list \<times> int \<times> int \<Rightarrow> int list \<times> int \<times> int" where
  "link k s = (case s of (nxt, head, len) \<Rightarrow>
     if nxt ! nat k = -1 then (nxt[nat k := head], k, len + 1) else (nxt, head, len))"

text \<open>The same block in \<open>sum_csr_duplicates\<close>, which keeps no \<open>length\<close>.\<close>

definition link0 :: "int \<Rightarrow> int list \<times> int \<Rightarrow> int list \<times> int" where
  "link0 k s = (case s of (nxt, head) \<Rightarrow>
     if nxt ! nat k = -1 then (nxt[nat k := head], k) else (nxt, head))"

text \<open>\<^verbatim>\<open>sums[k] += v\<close>\<close>

definition accum :: "int \<Rightarrow> 'a::comm_monoid_add \<Rightarrow> 'a list \<Rightarrow> 'a list" where
  "accum k v sums = sums[nat k := sums ! nat k + v]"

section \<open>sum_csr_duplicates\<close>

text \<open>
  The body of the drain loop \<^verbatim>\<open>while(head != -2){ ... }\<close> of \<open>sum_csr_duplicates\<close>, on
  the state (\<open>head\<close>, \<open>next\<close>, \<open>sums\<close>, \<open>Aj\<close>, \<open>Ax\<close>, \<open>nnz\<close>).
\<close>

definition sum_dups_drain_step ::
  "int \<times> int list \<times> 'a::comm_monoid_add list \<times> int list \<times> 'a list \<times> int \<Rightarrow>
   int \<times> int list \<times> 'a list \<times> int list \<times> 'a list \<times> int" where
  "sum_dups_drain_step s = (case s of (head, nxt, sums, Aj, Ax, nnz) \<Rightarrow>
     (let curr = head;
          head' = nxt ! nat curr;
          (Aj', Ax', nnz') =
             (if sums ! nat curr \<noteq> 0
              then (Aj[nat nnz := curr], Ax[nat nnz := sums ! nat curr], nnz + 1)
              else (Aj, Ax, nnz))
      in (head', nxt[nat curr := -1], sums[nat curr := 0], Aj', Ax', nnz')))"

text \<open>
  The loop has no counter, so it is a partial function: \<open>None\<close> is a loop that does not
  return.
\<close>

partial_function (option) sum_dups_drain ::
  "int \<times> int list \<times> 'a::comm_monoid_add list \<times> int list \<times> 'a list \<times> int \<Rightarrow>
   (int \<times> int list \<times> 'a list \<times> int list \<times> 'a list \<times> int) option"
where
  "sum_dups_drain s = (if fst s \<noteq> -2 then sum_dups_drain (sum_dups_drain_step s) else Some s)"

declare sum_dups_drain.simps [code]

text \<open>
  One iteration of the outer loop, on the state
  (\<open>Ap\<close>, \<open>Aj\<close>, \<open>Ax\<close>, \<open>next\<close>, \<open>sums\<close>, \<open>nnz\<close>, \<open>row_end\<close>): the loop that reads row
  \<open>i\<close> into the accumulator (\<open>sum_dups_touched\<close> is the state it leaves for the drain
  loop), then the drain loop and the update of \<open>Ap[i+1]\<close>.
\<close>

definition sum_dups_touch ::
  "int list \<Rightarrow> 'a::comm_monoid_add list \<Rightarrow> nat \<Rightarrow> 'a list \<times> int list \<times> int \<Rightarrow> 'a list \<times> int list \<times> int" where
  "sum_dups_touch Aj Ax jj s = (case s of (sums, nxt, head) \<Rightarrow>
     (let j = Aj ! jj in (accum j (Ax ! jj) sums, link0 j (nxt, head))))"

definition sum_dups_touched ::
  "nat \<Rightarrow> int list \<times> int list \<times> 'a::comm_monoid_add list \<times> int list \<times> 'a list \<times> int \<times> int \<Rightarrow>
   int \<times> int list \<times> 'a list \<times> int list \<times> 'a list \<times> int" where
  "sum_dups_touched i s = (case s of (Ap, Aj, Ax, nxt, sums, nnz, row_end) \<Rightarrow>
     (let head = -2;
          row_start = row_end;
          row_end' = Ap ! (i + 1);
          (sums', nxt', head') = fold (sum_dups_touch Aj Ax) (span row_start row_end') (sums, nxt, head)
      in (head', nxt', sums', Aj, Ax, nnz)))"

definition sum_dups_row ::
  "nat \<Rightarrow> int list \<times> int list \<times> 'a::comm_monoid_add list \<times> int list \<times> 'a list \<times> int \<times> int \<Rightarrow>
   (int list \<times> int list \<times> 'a list \<times> int list \<times> 'a list \<times> int \<times> int) option" where
  "sum_dups_row i s = (case s of (Ap, Aj, Ax, nxt, sums, nnz, row_end) \<Rightarrow>
     (case sum_dups_drain (sum_dups_touched i s) of
        None \<Rightarrow> None
      | Some (head', nxt', sums', Aj', Ax', nnz') \<Rightarrow>
          Some (Ap[i + 1 := nnz'], Aj', Ax', nxt', sums', nnz', Ap ! (i + 1))))"

text \<open>The state after the first \<open>k\<close> iterations of the outer loop.\<close>

definition sum_dups_rows ::
  "nat \<Rightarrow> nat \<Rightarrow> int list \<Rightarrow> int list \<Rightarrow> 'a::comm_monoid_add list \<Rightarrow>
   (int list \<times> int list \<times> 'a list \<times> int list \<times> 'a list \<times> int \<times> int) option" where
  "sum_dups_rows k n_col Ap Aj Ax =
     fold (\<lambda>i s. Option.bind s (sum_dups_row i)) [0..<k]
       (Some (Ap, Aj, Ax, replicate n_col (-1), replicate n_col 0, 0, 0))"

definition sum_csr_duplicates ::
  "nat \<Rightarrow> nat \<Rightarrow> int list \<Rightarrow> int list \<Rightarrow> 'a::comm_monoid_add list \<Rightarrow>
   (int list \<times> int list \<times> 'a list) option" where
  "sum_csr_duplicates n_row n_col Ap Aj Ax =
     map_option (\<lambda>(Ap', Aj', Ax', nxt, sums, nnz, row_end). (Ap', Aj', Ax'))
       (sum_dups_rows n_row n_col Ap Aj Ax)"

section \<open>coo_tocsr\<close>

text \<open>
  \<open>Bp\<close>, \<open>Bj\<close> and \<open>Bx\<close> are the caller's preallocated output arrays. The counting passes
  run on the work array \<open>temp\<close>; the last step is \<open>sum_csr_duplicates\<close> on the output.
\<close>

definition count_keys :: "int list \<Rightarrow> nat \<Rightarrow> int list \<Rightarrow> int list" where
  "count_keys keys nnz temp =
     fold (\<lambda>i temp. temp[nat (keys ! i) := temp ! nat (keys ! i) + 1]) [0..<nnz] temp"

definition cumsum_ptr :: "nat \<Rightarrow> int list \<Rightarrow> int list \<Rightarrow> int list \<times> int" where
  "cumsum_ptr n temp Bp =
     fold (\<lambda>i (Bp, cumsum). (Bp[i := cumsum], cumsum + temp ! i)) [0..<n] (Bp, 0)"

definition coo_scatter ::
  "int list \<Rightarrow> int list \<Rightarrow> 'a list \<Rightarrow> nat \<Rightarrow> int list \<times> 'a list \<times> int list \<Rightarrow> int list \<times> 'a list \<times> int list" where
  "coo_scatter Ai Aj Ax i s = (case s of (Bj, Bx, temp) \<Rightarrow>
     (let row = Ai ! i; n = temp ! nat row
      in (Bj[nat n := Aj ! i], Bx[nat n := Ax ! i], temp[nat row := temp ! nat row + 1])))"

definition coo_tocsr ::
  "nat \<Rightarrow> nat \<Rightarrow> nat \<Rightarrow> int list \<Rightarrow> int list \<Rightarrow> 'a::comm_monoid_add list \<Rightarrow>
   int list \<Rightarrow> int list \<Rightarrow> 'a list \<Rightarrow> (int list \<times> int list \<times> 'a list) option" where
  "coo_tocsr n_row n_col nnz Ai Aj Ax Bp Bj Bx =
     (let temp = count_keys Ai nnz (replicate n_row 0);
          (Bp1, cumsum) = cumsum_ptr n_row temp Bp;
          Bp2 = Bp1[n_row := int nnz];
          temp' = take n_row Bp2;
          (Bj', Bx', temp'') = fold (coo_scatter Ai Aj Ax) [0..<nnz] (Bj, Bx, temp')
      in sum_csr_duplicates n_row n_col Bp2 Bj' Bx')"

section \<open>csr_tocsc and csc_tocsr\<close>

text \<open>
  \<open>Bp\<close>, \<open>Bi\<close> and \<open>Bx\<close> are the caller's preallocated output arrays. The counting loop
  and the cumulative sum are those of \<open>coo_tocsr\<close>; the scatter loop runs over the rows
  of \<open>A\<close> and, inside a row, over its slice.
\<close>

definition csc_scatter ::
  "int list \<Rightarrow> 'a list \<Rightarrow> nat \<Rightarrow> nat \<Rightarrow> int list \<times> 'a list \<times> int list \<Rightarrow> int list \<times> 'a list \<times> int list" where
  "csc_scatter Aj Ax i j s = (case s of (Bi, Bx, temp) \<Rightarrow>
     (let col = Aj ! j; k = temp ! nat col
      in (Bi[nat k := int i], Bx[nat k := Ax ! j], temp[nat col := temp ! nat col + 1])))"

definition csr_tocsc ::
  "nat \<Rightarrow> nat \<Rightarrow> int list \<Rightarrow> int list \<Rightarrow> 'a list \<Rightarrow> int list \<Rightarrow> int list \<Rightarrow> 'a list \<Rightarrow>
   int list \<times> int list \<times> 'a list" where
  "csr_tocsc n_row n_col Ap Aj Ax Bp Bi Bx =
     (let nnz = Ap ! n_row;
          temp = count_keys Aj (nat nnz) (replicate n_col 0);
          (Bp1, cumsum) = cumsum_ptr n_col temp Bp;
          Bp2 = Bp1[n_col := nnz];
          temp' = take n_col Bp2;
          (Bi', Bx', temp'') =
             fold (\<lambda>i. fold (csc_scatter Aj Ax i) (row_span Ap i)) [0..<n_row] (Bi, Bx, temp')
      in (Bp2, Bi', Bx'))"

text \<open>\<^verbatim>\<open>{ csr_tocsc<I,T>(n_col, n_row, Ap, Ai, Ax, Bp, Bj, Bx); }\<close>\<close>

definition csc_tocsr ::
  "nat \<Rightarrow> nat \<Rightarrow> int list \<Rightarrow> int list \<Rightarrow> 'a list \<Rightarrow> int list \<Rightarrow> int list \<Rightarrow> 'a list \<Rightarrow>
   int list \<times> int list \<times> 'a list" where
  "csc_tocsr n_row n_col Ap Ai Ax Bp Bj Bx = csr_tocsc n_col n_row Ap Ai Ax Bp Bj Bx"

section \<open>Matrix product: csr_matmat_pass1, csr_matmat_pass2, csrmucsr\<close>

text \<open>
  The symbolic pass. For an entry \<open>jj\<close> of row \<open>i\<close> of \<open>A\<close>, the inner loop links every
  column of row \<open>Aj[jj]\<close> of \<open>B\<close>.
\<close>

definition pass1_touch ::
  "int list \<Rightarrow> int list \<Rightarrow> int list \<Rightarrow> nat \<Rightarrow> int list \<times> int \<times> int \<Rightarrow> int list \<times> int \<times> int" where
  "pass1_touch Aj Bp Bj jj s =
     (let j = Aj ! jj; kk_start = Bp ! nat j; kk_end = Bp ! nat (j + 1)
      in fold (\<lambda>kk. link (Bj ! kk)) (span kk_start kk_end) s)"

text \<open>
  \<^verbatim>\<open>for(I jj = 0; jj < length; jj++){ I temp = head; head = next[head]; next[temp] = -1; }\<close>
  on the state (\<open>next\<close>, \<open>head\<close>); the first argument is the number of iterations left.
\<close>

fun pass1_drain :: "nat \<Rightarrow> int list \<times> int \<Rightarrow> int list \<times> int" where
  "pass1_drain 0 s = s"
| "pass1_drain (Suc n) (nxt, head) =
     (let temp = head; head' = nxt ! nat head in pass1_drain n (nxt[nat temp := -1], head'))"

definition pass1_row ::
  "int list \<Rightarrow> int list \<Rightarrow> int list \<Rightarrow> int list \<Rightarrow> nat \<Rightarrow> int list \<times> int list \<Rightarrow> int list \<times> int list" where
  "pass1_row Ap Aj Bp Bj i s = (case s of (Cp, nxt) \<Rightarrow>
     (let head = -2; len = 0;
          (nxt', head', len') = fold (pass1_touch Aj Bp Bj) (row_span Ap i) (nxt, head, len);
          (nxt'', head'') = pass1_drain (nat len') (nxt', head')
      in (Cp[i + 1 := Cp ! i + len'], nxt'')))"

text \<open>The state (\<open>Cp\<close>, \<open>next\<close>) after the first \<open>k\<close> iterations of the outer loop.\<close>

definition pass1_rows ::
  "nat \<Rightarrow> nat \<Rightarrow> int list \<Rightarrow> int list \<Rightarrow> int list \<Rightarrow> int list \<Rightarrow> int list \<Rightarrow> int list \<times> int list" where
  "pass1_rows k n_col Ap Aj Bp Bj Cp =
     fold (pass1_row Ap Aj Bp Bj) [0..<k] (Cp[0 := 0], replicate n_col (-1))"

definition csr_matmat_pass1 ::
  "nat \<Rightarrow> nat \<Rightarrow> int list \<Rightarrow> int list \<Rightarrow> int list \<Rightarrow> int list \<Rightarrow> int list \<Rightarrow> int list" where
  "csr_matmat_pass1 n_row n_col Ap Aj Bp Bj Cp = fst (pass1_rows n_row n_col Ap Aj Bp Bj Cp)"

text \<open>
  The numeric pass. The touch loop is the same in \<open>csr_matmat_pass2\<close> and \<open>csrmucsr\<close>:
  \<^verbatim>\<open>sums[k] += v*Bx[kk]\<close> with \<open>v = Ax[jj]\<close>, then the link block. Its state is
  (\<open>sums\<close>, \<open>next\<close>, \<open>head\<close>, \<open>length\<close>).
\<close>

definition matmat_touch ::
  "int list \<Rightarrow> 'a::semiring_0 list \<Rightarrow> int list \<Rightarrow> int list \<Rightarrow> 'a list \<Rightarrow> nat \<Rightarrow>
   'a list \<times> int list \<times> int \<times> int \<Rightarrow> 'a list \<times> int list \<times> int \<times> int" where
  "matmat_touch Aj Ax Bp Bj Bx jj s =
     (let j = Aj ! jj; v = Ax ! jj; kk_start = Bp ! nat j; kk_end = Bp ! nat (j + 1)
      in fold (\<lambda>kk s. case s of (sums, ls) \<Rightarrow>
                 (let k = Bj ! kk in (accum k (v * Bx ! kk) sums, link k ls)))
           (span kk_start kk_end) s)"

text \<open>
  The drain loop of \<open>csr_matmat_pass2\<close>, which writes into the preallocated \<open>Cj\<close>, \<open>Cx\<close>
  at the cursor \<open>nnz\<close>; state (\<open>head\<close>, \<open>next\<close>, \<open>sums\<close>, \<open>Cj\<close>, \<open>Cx\<close>, \<open>nnz\<close>).
\<close>

fun pass2_drain ::
  "nat \<Rightarrow> int \<times> int list \<times> 'a::semiring_0 list \<times> int list \<times> 'a list \<times> int \<Rightarrow>
   int \<times> int list \<times> 'a list \<times> int list \<times> 'a list \<times> int" where
  "pass2_drain 0 s = s"
| "pass2_drain (Suc n) (head, nxt, sums, Cj, Cx, nnz) =
     (let (Cj', Cx', nnz') =
             (if sums ! nat head \<noteq> 0
              then (Cj[nat nnz := head], Cx[nat nnz := sums ! nat head], nnz + 1)
              else (Cj, Cx, nnz));
          temp = head;
          head' = nxt ! nat head
      in pass2_drain n (head', nxt[nat temp := -1], sums[nat temp := 0], Cj', Cx', nnz'))"

definition pass2_row ::
  "int list \<Rightarrow> int list \<Rightarrow> 'a::semiring_0 list \<Rightarrow> int list \<Rightarrow> int list \<Rightarrow> 'a list \<Rightarrow> nat \<Rightarrow>
   int list \<times> int list \<times> 'a list \<times> int list \<times> 'a list \<times> int \<Rightarrow>
   int list \<times> int list \<times> 'a list \<times> int list \<times> 'a list \<times> int" where
  "pass2_row Ap Aj Ax Bp Bj Bx i s = (case s of (Cp, Cj, Cx, nxt, sums, nnz) \<Rightarrow>
     (let head = -2; len = 0;
          (sums', nxt', head', len') =
             fold (matmat_touch Aj Ax Bp Bj Bx) (row_span Ap i) (sums, nxt, head, len);
          (head'', nxt'', sums'', Cj', Cx', nnz') =
             pass2_drain (nat len') (head', nxt', sums', Cj, Cx, nnz)
      in (Cp[i + 1 := nnz'], Cj', Cx', nxt'', sums'', nnz')))"

definition pass2_rows ::
  "nat \<Rightarrow> nat \<Rightarrow> int list \<Rightarrow> int list \<Rightarrow> 'a::semiring_0 list \<Rightarrow> int list \<Rightarrow> int list \<Rightarrow> 'a list \<Rightarrow>
   int list \<Rightarrow> int list \<Rightarrow> 'a list \<Rightarrow> int list \<times> int list \<times> 'a list \<times> int list \<times> 'a list \<times> int" where
  "pass2_rows k n_col Ap Aj Ax Bp Bj Bx Cp Cj Cx =
     fold (pass2_row Ap Aj Ax Bp Bj Bx) [0..<k]
       (Cp[0 := 0], Cj, Cx, replicate n_col (-1), replicate n_col 0, 0)"

definition csr_matmat_pass2 ::
  "nat \<Rightarrow> nat \<Rightarrow> int list \<Rightarrow> int list \<Rightarrow> 'a::semiring_0 list \<Rightarrow> int list \<Rightarrow> int list \<Rightarrow> 'a list \<Rightarrow>
   int list \<Rightarrow> int list \<Rightarrow> 'a list \<Rightarrow> int list \<times> int list \<times> 'a list" where
  "csr_matmat_pass2 n_row n_col Ap Aj Ax Bp Bj Bx Cp Cj Cx =
     (case pass2_rows n_row n_col Ap Aj Ax Bp Bj Bx Cp Cj Cx of
        (Cp', Cj', Cx', nxt, sums, nnz) \<Rightarrow> (Cp', Cj', Cx'))"

text \<open>
  \<open>csrmucsr\<close> appends to the vectors \<open>Cj\<close>, \<open>Cx\<close>, which it allocates itself (they start
  empty; \<^verbatim>\<open>Cp->resize(n_row+1,0)\<close> makes \<open>Cp\<close> a vector of \<open>n_row + 1\<close> zeros). Drain
  state: (\<open>head\<close>, \<open>next\<close>, \<open>sums\<close>, \<open>Cj\<close>, \<open>Cx\<close>).
\<close>

fun mucsr_drain ::
  "nat \<Rightarrow> int \<times> int list \<times> 'a::semiring_0 list \<times> int list \<times> 'a list \<Rightarrow>
   int \<times> int list \<times> 'a list \<times> int list \<times> 'a list" where
  "mucsr_drain 0 s = s"
| "mucsr_drain (Suc n) (head, nxt, sums, Cj, Cx) =
     (let (Cj', Cx') =
             (if sums ! nat head \<noteq> 0 then (Cj @ [head], Cx @ [sums ! nat head]) else (Cj, Cx));
          temp = head;
          head' = nxt ! nat head
      in mucsr_drain n (head', nxt[nat temp := -1], sums[nat temp := 0], Cj', Cx'))"

definition mucsr_row ::
  "int list \<Rightarrow> int list \<Rightarrow> 'a::semiring_0 list \<Rightarrow> int list \<Rightarrow> int list \<Rightarrow> 'a list \<Rightarrow> nat \<Rightarrow>
   int list \<times> int list \<times> 'a list \<times> int list \<times> 'a list \<Rightarrow>
   int list \<times> int list \<times> 'a list \<times> int list \<times> 'a list" where
  "mucsr_row Ap Aj Ax Bp Bj Bx i s = (case s of (Cp, Cj, Cx, nxt, sums) \<Rightarrow>
     (let head = -2; len = 0;
          (sums', nxt', head', len') =
             fold (matmat_touch Aj Ax Bp Bj Bx) (row_span Ap i) (sums, nxt, head, len);
          (head'', nxt'', sums'', Cj', Cx') = mucsr_drain (nat len') (head', nxt', sums', Cj, Cx)
      in (Cp[i + 1 := int (length Cx')], Cj', Cx', nxt'', sums'')))"

text \<open>
  The state (\<open>Cp\<close>, \<open>Cj\<close>, \<open>Cx\<close>, \<open>next\<close>, \<open>sums\<close>) at the start of outer iteration \<open>k\<close>
  (after the first \<open>k\<close> iterations).
\<close>

definition mucsr_rows ::
  "nat \<Rightarrow> nat \<Rightarrow> nat \<Rightarrow> int list \<Rightarrow> int list \<Rightarrow> 'a::semiring_0 list \<Rightarrow> int list \<Rightarrow> int list \<Rightarrow> 'a list \<Rightarrow>
   int list \<times> int list \<times> 'a list \<times> int list \<times> 'a list" where
  "mucsr_rows k n_row n_col Ap Aj Ax Bp Bj Bx =
     fold (mucsr_row Ap Aj Ax Bp Bj Bx) [0..<k]
       (replicate (n_row + 1) 0, [], [], replicate n_col (-1), replicate n_col 0)"

definition csrmucsr ::
  "nat \<Rightarrow> nat \<Rightarrow> int list \<Rightarrow> int list \<Rightarrow> 'a::semiring_0 list \<Rightarrow> int list \<Rightarrow> int list \<Rightarrow> 'a list \<Rightarrow>
   int list \<times> int list \<times> 'a list" where
  "csrmucsr n_row n_col Ap Aj Ax Bp Bj Bx =
     (case mucsr_rows n_row n_row n_col Ap Aj Ax Bp Bj Bx of
        (Cp, Cj, Cx, nxt, sums) \<Rightarrow> (Cp, Cj, Cx))"

section \<open>Elementwise combination: csr_binop_csr\<close>

text \<open>
  \<^verbatim>\<open>A_row[j] += Ax[jj]\<close> (or \<open>B_row\<close>, \<open>Bx\<close>) and the link block; state
  (\<open>row\<close>, \<open>next\<close>, \<open>head\<close>, \<open>length\<close>).
\<close>

definition binop_touch ::
  "int list \<Rightarrow> 'a::comm_monoid_add list \<Rightarrow> nat \<Rightarrow>
   'a list \<times> int list \<times> int \<times> int \<Rightarrow> 'a list \<times> int list \<times> int \<times> int" where
  "binop_touch Aj Ax jj s = (case s of (row, ls) \<Rightarrow>
     (let j = Aj ! jj in (accum j (Ax ! jj) row, link j ls)))"

text \<open>\<^verbatim>\<open>T result = op(A_row[head],B_row[head]);\<close> the candidate value of column \<open>head\<close>.\<close>

definition binop_result :: "('a \<Rightarrow> 'a \<Rightarrow> 'a) \<Rightarrow> 'a list \<Rightarrow> 'a list \<Rightarrow> int \<Rightarrow> 'a" where
  "binop_result op A_row B_row head = op (A_row ! nat head) (B_row ! nat head)"

text \<open>
  The drain loop; state (\<open>head\<close>, \<open>next\<close>, \<open>A_row\<close>, \<open>B_row\<close>, \<open>Cj\<close>, \<open>Cx\<close>).
\<close>

fun binop_drain ::
  "('a \<Rightarrow> 'a \<Rightarrow> 'a) \<Rightarrow> nat \<Rightarrow>
   int \<times> int list \<times> 'a::comm_monoid_add list \<times> 'a list \<times> int list \<times> 'a list \<Rightarrow>
   int \<times> int list \<times> 'a list \<times> 'a list \<times> int list \<times> 'a list" where
  "binop_drain op 0 s = s"
| "binop_drain op (Suc n) (head, nxt, A_row, B_row, Cj, Cx) =
     (let result = binop_result op A_row B_row head;
          (Cj', Cx') = (if result \<noteq> 0 then (Cj @ [head], Cx @ [result]) else (Cj, Cx));
          temp = head;
          head' = nxt ! nat head
      in binop_drain op n
           (head', nxt[nat temp := -1], A_row[nat temp := 0], B_row[nat temp := 0], Cj', Cx'))"

text \<open>
  One iteration of the outer loop on the state
  (\<open>Cp\<close>, \<open>Cj\<close>, \<open>Cx\<close>, \<open>next\<close>, \<open>A_row\<close>, \<open>B_row\<close>): row \<open>i\<close> of \<open>A\<close> and then row \<open>i\<close> of
  \<open>B\<close> are added to the accumulator (\<open>binop_touched\<close> is the accumulator
  (\<open>head\<close>, \<open>next\<close>, \<open>A_row\<close>, \<open>B_row\<close>, \<open>length\<close>) this leaves for the drain loop), then the
  drain loop runs \<open>length\<close> times and \<open>Cp[i+1]\<close> is set.
\<close>

definition binop_touched ::
  "int list \<Rightarrow> int list \<Rightarrow> 'a::comm_monoid_add list \<Rightarrow> int list \<Rightarrow> int list \<Rightarrow> 'a list \<Rightarrow> nat \<Rightarrow>
   int list \<times> int list \<times> 'a list \<times> int list \<times> 'a list \<times> 'a list \<Rightarrow>
   int \<times> int list \<times> 'a list \<times> 'a list \<times> int" where
  "binop_touched Ap Aj Ax Bp Bj Bx i s = (case s of (Cp, Cj, Cx, nxt, A_row, B_row) \<Rightarrow>
     (let head = -2; len = 0;
          (A_row', nxt', head', len') =
             fold (binop_touch Aj Ax) (row_span Ap i) (A_row, nxt, head, len);
          (B_row', nxt'', head'', len'') =
             fold (binop_touch Bj Bx) (row_span Bp i) (B_row, nxt', head', len')
      in (head'', nxt'', A_row', B_row', len'')))"

definition binop_row ::
  "('a \<Rightarrow> 'a \<Rightarrow> 'a) \<Rightarrow> int list \<Rightarrow> int list \<Rightarrow> 'a::comm_monoid_add list \<Rightarrow>
   int list \<Rightarrow> int list \<Rightarrow> 'a list \<Rightarrow> nat \<Rightarrow>
   int list \<times> int list \<times> 'a list \<times> int list \<times> 'a list \<times> 'a list \<Rightarrow>
   int list \<times> int list \<times> 'a list \<times> int list \<times> 'a list \<times> 'a list" where
  "binop_row op Ap Aj Ax Bp Bj Bx i s = (case s of (Cp, Cj, Cx, nxt, A_row, B_row) \<Rightarrow>
     (case binop_touched Ap Aj Ax Bp Bj Bx i s of (head, nxt', A_row', B_row', len) \<Rightarrow>
        (let (head3, nxt3, A_row3, B_row3, Cj', Cx') =
                binop_drain op (nat len) (head, nxt', A_row', B_row', Cj, Cx)
         in (Cp[i + 1 := int (length Cx')], Cj', Cx', nxt3, A_row3, B_row3))))"

text \<open>
  The state (\<open>Cp\<close>, \<open>Cj\<close>, \<open>Cx\<close>, \<open>next\<close>, \<open>A_row\<close>, \<open>B_row\<close>) at the start of outer
  iteration \<open>k\<close>.
\<close>

definition binop_rows ::
  "('a \<Rightarrow> 'a \<Rightarrow> 'a) \<Rightarrow> nat \<Rightarrow> nat \<Rightarrow> nat \<Rightarrow> int list \<Rightarrow> int list \<Rightarrow> 'a::comm_monoid_add list \<Rightarrow>
   int list \<Rightarrow> int list \<Rightarrow> 'a list \<Rightarrow>
   int list \<times> int list \<times> 'a list \<times> int list \<times> 'a list \<times> 'a list" where
  "binop_rows op k n_row n_col Ap Aj Ax Bp Bj Bx =
     fold (binop_row op Ap Aj Ax Bp Bj Bx) [0..<k]
       (replicate (n_row + 1) 0, [], [], replicate n_col (-1), replicate n_col 0, replicate n_col 0)"

definition csr_binop_csr ::
  "nat \<Rightarrow> nat \<Rightarrow> int list \<Rightarrow> int list \<Rightarrow> 'a::comm_monoid_add list \<Rightarrow>
   int list \<Rightarrow> int list \<Rightarrow> 'a list \<Rightarrow> ('a \<Rightarrow> 'a \<Rightarrow> 'a) \<Rightarrow> int list \<times> int list \<times> 'a list" where
  "csr_binop_csr n_row n_col Ap Aj Ax Bp Bj Bx op =
     (case binop_rows op n_row n_row n_col Ap Aj Ax Bp Bj Bx of
        (Cp, Cj, Cx, nxt, A_row, B_row) \<Rightarrow> (Cp, Cj, Cx))"

text \<open>\<^verbatim>\<open>csr_binop_csr(n_row,n_col,Ap,Aj,Ax,Bp,Bj,Bx,Cp,Cj,Cx,std::plus<T>());\<close>\<close>

definition csr_plus_csr ::
  "nat \<Rightarrow> nat \<Rightarrow> int list \<Rightarrow> int list \<Rightarrow> 'a::comm_monoid_add list \<Rightarrow>
   int list \<Rightarrow> int list \<Rightarrow> 'a list \<Rightarrow> int list \<times> int list \<times> 'a list" where
  "csr_plus_csr n_row n_col Ap Aj Ax Bp Bj Bx = csr_binop_csr n_row n_col Ap Aj Ax Bp Bj Bx (+)"

section \<open>Specification-level notions\<close>

text \<open>
  The definitions of this section are not part of the program: they describe the
  accumulator's linked list and the results of the kernels, and are used to state and
  prove the theorems.
\<close>

text \<open>All indices of a list lie in \<open>[0, n)\<close>.\<close>

definition in_range :: "nat \<Rightarrow> int list \<Rightarrow> bool" where
  "in_range n ks \<longleftrightarrow> list_all (\<lambda>k. 0 \<le> k \<and> k < int n) ks"

text \<open>
  \<open>chain next head ks\<close>: following \<open>next\<close> from \<open>head\<close> visits exactly the columns \<open>ks\<close>,
  in this order, and then reaches the end marker \<open>-2\<close>.
\<close>

fun chain :: "int list \<Rightarrow> int \<Rightarrow> int list \<Rightarrow> bool" where
  "chain nxt h [] \<longleftrightarrow> h = -2"
| "chain nxt h (k # ks) \<longleftrightarrow> h = k \<and> chain nxt (nxt ! nat k) ks"

text \<open>
  The accumulator invariant: the list holds the distinct in-range columns \<open>ks\<close>, and every
  other cell of \<open>next\<close> is the sentinel \<open>-1\<close>.
\<close>

definition acc_inv :: "nat \<Rightarrow> int list \<Rightarrow> int list \<Rightarrow> int \<Rightarrow> bool" where
  "acc_inv n ks nxt head \<longleftrightarrow>
     length nxt = n \<and> distinct ks \<and> in_range n ks \<and> chain nxt head ks \<and>
     (\<forall>c<n. int c \<notin> set ks \<longrightarrow> nxt ! c = -1)"

text \<open>Touching column \<open>k\<close> puts it in front of the list unless it is there already.\<close>

definition ins :: "int \<Rightarrow> int list \<Rightarrow> int list" where
  "ins k ks = (if k \<in> set ks then ks else k # ks)"

text \<open>
  The order in which a drain loop visits the columns of the entries \<open>es\<close>: the reverse of
  the order in which the columns were first touched.
\<close>

definition drain_order :: "(int \<times> 'a) list \<Rightarrow> int list" where
  "drain_order es = fold ins (map fst es) []"

text \<open>Resetting the cells \<open>ks\<close> of a work array to \<open>v\<close>.\<close>

definition clear :: "'b \<Rightarrow> int list \<Rightarrow> 'b list \<Rightarrow> 'b list" where
  "clear v ks xs = fold (\<lambda>k xs. xs[nat k := v]) ks xs"

text \<open>The array \<open>xs\<close> with the cells \<open>n, n + 1, \<dots>\<close> overwritten by \<open>ys\<close>.\<close>

definition write_at :: "nat \<Rightarrow> 'b list \<Rightarrow> 'b list \<Rightarrow> 'b list" where
  "write_at n ys xs = take n xs @ ys @ drop (n + length ys) xs"

text \<open>The accumulated value of column \<open>c\<close> over the entries \<open>es\<close> (0 when \<open>c\<close> is absent).\<close>

definition col_sum :: "(int \<times> 'a::comm_monoid_add) list \<Rightarrow> int \<Rightarrow> 'a" where
  "col_sum es c = sum_list (map snd (filter (\<lambda>e. fst e = c) es))"

text \<open>What a drain loop emits for the list \<open>ks\<close> and the value array \<open>sums\<close>.\<close>

definition drained :: "int list \<Rightarrow> 'a::zero list \<Rightarrow> (int \<times> 'a) list" where
  "drained ks sums = filter (\<lambda>e. snd e \<noteq> 0) (map (\<lambda>c. (c, sums ! nat c)) ks)"

text \<open>
  The coalesced row: one entry per column, in drain order, with the accumulated value,
  zero sums left out.
\<close>

definition coalesce_row :: "(int \<times> 'a::comm_monoid_add) list \<Rightarrow> (int \<times> 'a) list" where
  "coalesce_row es = filter (\<lambda>e. snd e \<noteq> 0) (map (\<lambda>c. (c, col_sum es c)) (drain_order es))"

text \<open>The coalesced rows \<open>0, \<dots>, k - 1\<close> one after the other, and the pointer array after
  \<open>k\<close> rows.\<close>

definition coalesced :: "int list \<Rightarrow> int list \<Rightarrow> 'a::comm_monoid_add list \<Rightarrow> nat \<Rightarrow> (int \<times> 'a) list" where
  "coalesced Ap Aj Ax k = concat (map (\<lambda>r. coalesce_row (row_entries Ap Aj Ax r)) [0..<k])"

definition coalesced_ptr :: "nat \<Rightarrow> int list \<Rightarrow> int list \<Rightarrow> 'a::comm_monoid_add list \<Rightarrow> nat \<Rightarrow> int list" where
  "coalesced_ptr n_row Ap Aj Ax k =
     map (\<lambda>j. if j \<le> k then int (length (coalesced Ap Aj Ax j)) else Ap ! j) [0..<n_row + 1]"

text \<open>
  \<open>drain_iter n s = Some t\<close>: the drain loop of \<open>sum_csr_duplicates\<close>, started in state
  \<open>s\<close>, runs at least \<open>n\<close> iterations and is in state \<open>t\<close> after the \<open>n\<close>-th.
\<close>

fun drain_iter ::
  "nat \<Rightarrow> int \<times> int list \<times> 'a::comm_monoid_add list \<times> int list \<times> 'a list \<times> int \<Rightarrow>
   (int \<times> int list \<times> 'a list \<times> int list \<times> 'a list \<times> int) option" where
  "drain_iter 0 s = Some s"
| "drain_iter (Suc n) s = (if fst s \<noteq> -2 then drain_iter n (sum_dups_drain_step s) else None)"

text \<open>
  The contributions to row \<open>i\<close> of the product \<open>A B\<close>, as (column, \<open>Ax[jj] * Bx[kk]\<close>)
  pairs in the order in which the nested iteration visits them, and their columns alone.
\<close>

definition prod_entries ::
  "int list \<Rightarrow> int list \<Rightarrow> 'a::semiring_0 list \<Rightarrow> int list \<Rightarrow> int list \<Rightarrow> 'a list \<Rightarrow> nat \<Rightarrow> (int \<times> 'a) list" where
  "prod_entries Ap Aj Ax Bp Bj Bx i =
     concat (map (\<lambda>jj. map (\<lambda>kk. (Bj ! kk, Ax ! jj * Bx ! kk))
                          (span (Bp ! nat (Aj ! jj)) (Bp ! nat (Aj ! jj + 1))))
                 (row_span Ap i))"

definition prod_cols :: "int list \<Rightarrow> int list \<Rightarrow> int list \<Rightarrow> int list \<Rightarrow> nat \<Rightarrow> int list" where
  "prod_cols Ap Aj Bp Bj i =
     concat (map (\<lambda>jj. map (\<lambda>kk. Bj ! kk) (span (Bp ! nat (Aj ! jj)) (Bp ! nat (Aj ! jj + 1))))
                 (row_span Ap i))"

text \<open>
  What \<open>csr_binop_csr\<close> emits for a row with the entries \<open>ea\<close> in \<open>A\<close> and \<open>eb\<close> in \<open>B\<close>:
  one candidate \<open>op a b\<close> per column of either operand, in drain order, where \<open>a\<close> and
  \<open>b\<close> are the accumulated values of the column in \<open>A\<close> and in \<open>B\<close>; zero candidates are
  left out.
\<close>

definition binop_out ::
  "('a \<Rightarrow> 'a \<Rightarrow> 'a) \<Rightarrow> (int \<times> 'a::comm_monoid_add) list \<Rightarrow> (int \<times> 'a) list \<Rightarrow> (int \<times> 'a) list" where
  "binop_out op ea eb =
     filter (\<lambda>e. snd e \<noteq> 0)
       (map (\<lambda>c. (c, op (col_sum ea c) (col_sum eb c))) (drain_order (ea @ eb)))"

text \<open>
  The rows \<open>f 0, \<dots>, f (k - 1)\<close> one after the other, and the pointer array \<open>Cp\<close> after
  \<open>k\<close> rows have been appended.
\<close>

definition rows_cat :: "(nat \<Rightarrow> 'b list) \<Rightarrow> nat \<Rightarrow> 'b list" where
  "rows_cat f k = concat (map f [0..<k])"

definition ptr_upd :: "(nat \<Rightarrow> 'b list) \<Rightarrow> int list \<Rightarrow> nat \<Rightarrow> int list" where
  "ptr_upd f Cp k =
     map (\<lambda>j. if j \<le> k then int (length (rows_cat f j)) else Cp ! j) [0..<length Cp]"

text \<open>What the drain loop of \<open>csr_binop_csr\<close> emits for the list \<open>ks\<close> and the two value arrays.\<close>

definition drained2 :: "('a \<Rightarrow> 'a \<Rightarrow> 'a::zero) \<Rightarrow> int list \<Rightarrow> 'a list \<Rightarrow> 'a list \<Rightarrow> (int \<times> 'a) list" where
  "drained2 op ks A_row B_row =
     filter (\<lambda>e. snd e \<noteq> 0) (map (\<lambda>c. (c, op (A_row ! nat c) (B_row ! nat c))) ks)"


text \<open>
  Counting sort. \<open>keys_below ks c\<close> and \<open>keys_at ks c\<close> count the keys below \<open>c\<close> and
  equal to \<open>c\<close>; \<open>swap_rc\<close> exchanges the first two components of a triple, so it turns
  the (row, column, value) triples of \<open>A\<close> into the (column, row, value) triples that
  \<open>csr_tocsc\<close> sorts by their first component; \<open>scatter\<close> is the body of the scatter loop,
  on such a triple.
\<close>

definition keys_below :: "int list \<Rightarrow> nat \<Rightarrow> nat" where
  "keys_below ks c = length (filter (\<lambda>k. k < int c) ks)"

definition keys_at :: "int list \<Rightarrow> nat \<Rightarrow> nat" where
  "keys_at ks c = length (filter (\<lambda>k. k = int c) ks)"

definition swap_rc :: "int \<times> int \<times> 'a \<Rightarrow> int \<times> int \<times> 'a" where
  "swap_rc t = (case t of (r, c, v) \<Rightarrow> (c, r, v))"

definition scatter :: "int \<times> int \<times> 'a \<Rightarrow> int list \<times> 'a list \<times> int list \<Rightarrow> int list \<times> 'a list \<times> int list" where
  "scatter e s = (case e of (k, r, v) \<Rightarrow> case s of (Bi, Bx, temp) \<Rightarrow>
     (Bi[nat (temp ! nat k) := r], Bx[nat (temp ! nat k) := v], temp[nat k := temp ! nat k + 1]))"

text \<open>The entries of a list of triples with first component \<open>c\<close>, and the list sorted by
  first component, entries with equal first component in their original order.\<close>

definition bucket :: "(int \<times> int \<times> 'a) list \<Rightarrow> nat \<Rightarrow> (int \<times> int \<times> 'a) list" where
  "bucket es c = filter (\<lambda>e. fst e = int c) es"

definition bucket_sort :: "nat \<Rightarrow> (int \<times> int \<times> 'a) list \<Rightarrow> (int \<times> int \<times> 'a) list" where
  "bucket_sort n es = concat (map (bucket es) [0..<n])"

text \<open>
  The scatter invariant after the entries \<open>P\<close> of the key sequence \<open>ks\<close> have been placed:
  the cursor of bucket \<open>c\<close> stands behind the entries of \<open>P\<close> with key \<open>c\<close>, which fill the
  bucket from its start, in order.
\<close>

definition scatter_inv ::
  "nat \<Rightarrow> int list \<Rightarrow> (int \<times> int \<times> 'a) list \<Rightarrow> int list \<times> 'a list \<times> int list \<Rightarrow> bool" where
  "scatter_inv n ks P s = (case s of (Bi, Bx, temp) \<Rightarrow>
     length temp = n \<and>
     (\<forall>c<n. temp ! c = int (keys_below ks c + length (bucket P c))) \<and>
     (\<forall>c<n. map (\<lambda>jj. (Bi ! jj, Bx ! jj))
               [keys_below ks c ..< keys_below ks c + length (bucket P c)] =
             map snd (bucket P c)))"

section \<open>Lemmas: the accumulator\<close>

lemma in_range_simps [simp]:
  "in_range n []"
  "in_range n (k # ks) \<longleftrightarrow> 0 \<le> k \<and> k < int n \<and> in_range n ks"
  "in_range n (ks @ ks') \<longleftrightarrow> in_range n ks \<and> in_range n ks'"
  by (auto simp: in_range_def)

lemma in_rangeD: "in_range n ks \<Longrightarrow> k \<in> set ks \<Longrightarrow> 0 \<le> k \<and> k < int n"
  by (auto simp: in_range_def list_all_iff)

lemma in_range_iff: "in_range n ks \<longleftrightarrow> (\<forall>k\<in>set ks. 0 \<le> k \<and> k < int n)"
  by (auto simp: in_range_def list_all_iff)

lemma chain_head_visited: "chain nxt h ks \<Longrightarrow> in_range n ks \<Longrightarrow> h \<noteq> -1"
  by (cases ks) auto

lemma chain_next_visited:
  "chain nxt h ks \<Longrightarrow> in_range n ks \<Longrightarrow> k \<in> set ks \<Longrightarrow> nxt ! nat k \<noteq> -1"
proof (induction ks arbitrary: h)
  case Nil
  then show ?case by simp
next
  case (Cons a ks)
  then show ?case
    using chain_head_visited [of nxt "nxt ! nat a" ks n] by auto
qed

lemma chain_update:
  "chain nxt h ks \<Longrightarrow> in_range n ks \<Longrightarrow> 0 \<le> k \<Longrightarrow> k \<notin> set ks \<Longrightarrow> chain (nxt[nat k := v]) h ks"
proof (induction ks arbitrary: h)
  case Nil
  then show ?case by simp
next
  case (Cons a ks)
  then have "nat k \<noteq> nat a" by auto
  with Cons show ?case by auto
qed

lemma acc_inv_visited:
  assumes "acc_inv n ks nxt head" "0 \<le> k" "k < int n"
  shows "nxt ! nat k = -1 \<longleftrightarrow> k \<notin> set ks"
proof
  assume "nxt ! nat k = -1"
  with assms show "k \<notin> set ks"
    using chain_next_visited [of nxt head ks n k] by (auto simp: acc_inv_def)
next
  assume "k \<notin> set ks"
  moreover have "nat k < n" "int (nat k) = k" using assms by auto
  ultimately show "nxt ! nat k = -1"
    using assms(1) unfolding acc_inv_def by metis
qed

lemma acc_inv_empty: "acc_inv n [] (replicate n (-1)) (-2)"
  by (simp add: acc_inv_def)

lemma acc_inv_ins:
  assumes "acc_inv n ks nxt head" "0 \<le> k" "k < int n" "k \<notin> set ks"
  shows "acc_inv n (k # ks) (nxt[nat k := head]) k"
proof -
  have "chain (nxt[nat k := head]) head ks"
    using assms chain_update [of nxt head ks n k head] by (simp add: acc_inv_def)
  moreover have "nat k < length nxt" using assms by (simp add: acc_inv_def)
  moreover have "\<forall>c<n. int c \<notin> set (k # ks) \<longrightarrow> nxt[nat k := head] ! c = -1"
    using assms by (auto simp: acc_inv_def nth_list_update)
  ultimately show ?thesis using assms by (simp add: acc_inv_def)
qed

lemma link0_inv:
  assumes "acc_inv n ks nxt head" "0 \<le> k" "k < int n"
  shows "\<exists>nxt' head'. link0 k (nxt, head) = (nxt', head') \<and> acc_inv n (ins k ks) nxt' head'"
  using assms acc_inv_visited [OF assms] acc_inv_ins [of n ks nxt head k]
  by (auto simp: link0_def ins_def)

lemma link_inv:
  assumes "acc_inv n ks nxt head" "0 \<le> k" "k < int n"
  shows "\<exists>nxt' head'. link k (nxt, head, int (length ks)) = (nxt', head', int (length (ins k ks))) \<and>
           acc_inv n (ins k ks) nxt' head'"
  using assms acc_inv_visited [OF assms] acc_inv_ins [of n ks nxt head k]
  by (auto simp: link_def ins_def)

lemma fold_link0_inv:
  "acc_inv n ks nxt head \<Longrightarrow> in_range n cols \<Longrightarrow>
   \<exists>nxt' head'. fold link0 cols (nxt, head) = (nxt', head') \<and> acc_inv n (fold ins cols ks) nxt' head'"
proof (induction cols arbitrary: ks nxt head)
  case Nil
  then show ?case by simp
next
  case (Cons k cols)
  then obtain nxt1 head1 where
    "link0 k (nxt, head) = (nxt1, head1)" "acc_inv n (ins k ks) nxt1 head1"
    using link0_inv [of n ks nxt head k] by auto
  with Cons.IH [of "ins k ks" nxt1 head1] Cons.prems show ?case by auto
qed

lemma fold_link_inv:
  "acc_inv n ks nxt head \<Longrightarrow> in_range n cols \<Longrightarrow>
   \<exists>nxt' head'. fold link cols (nxt, head, int (length ks)) =
       (nxt', head', int (length (fold ins cols ks))) \<and> acc_inv n (fold ins cols ks) nxt' head'"
proof (induction cols arbitrary: ks nxt head)
  case Nil
  then show ?case by simp
next
  case (Cons k cols)
  then obtain nxt1 head1 where
    "link k (nxt, head, int (length ks)) = (nxt1, head1, int (length (ins k ks)))"
    "acc_inv n (ins k ks) nxt1 head1"
    using link_inv [of n ks nxt head k] by auto
  with Cons.IH [of "ins k ks" nxt1 head1] Cons.prems show ?case by auto
qed


lemma set_fold_ins: "set (fold ins cols ks) = set cols \<union> set ks"
  by (induction cols arbitrary: ks) (auto simp: ins_def)

lemma distinct_fold_ins: "distinct ks \<Longrightarrow> distinct (fold ins cols ks)"
  by (induction cols arbitrary: ks) (auto simp: ins_def)

lemma length_fold_ins: "length (fold ins cols ks) \<le> length cols + length ks"
proof (induction cols arbitrary: ks)
  case Nil
  then show ?case by simp
next
  case (Cons k cols)
  have "length (ins k ks) \<le> Suc (length ks)" by (simp add: ins_def)
  with Cons.IH [of "ins k ks"] show ?case by simp
qed

lemma fold_ins_distinct:
  "distinct cols \<Longrightarrow> set cols \<inter> set ks = {} \<Longrightarrow> fold ins cols ks = rev cols @ ks"
  by (induction cols arbitrary: ks) (auto simp: ins_def)

lemma in_range_fold_ins: "in_range n cols \<Longrightarrow> in_range n ks \<Longrightarrow> in_range n (fold ins cols ks)"
  by (auto simp: in_range_iff set_fold_ins)

subsection \<open>Clearing and column sums\<close>

lemma length_clear [simp]: "length (clear v ks xs) = length xs"
  unfolding clear_def by (induction ks arbitrary: xs) auto

lemma nth_clear:
  "in_range n ks \<Longrightarrow> c < length xs \<Longrightarrow> clear v ks xs ! c = (if int c \<in> set ks then v else xs ! c)"
  unfolding clear_def
proof (induction ks arbitrary: xs)
  case Nil
  then show ?case by simp
next
  case (Cons k ks)
  then have "0 \<le> k" by simp
  then have "int c = k \<longleftrightarrow> c = nat k" by auto
  with Cons show ?case by (auto simp: nth_list_update)
qed

lemma clear_acc_inv: "acc_inv n ks nxt head \<Longrightarrow> clear (-1) ks nxt = replicate n (-1)"
  by (rule nth_equalityI) (auto simp: acc_inv_def nth_clear)

lemma length_accum [simp]: "length (accum k v sums) = length sums"
  by (simp add: accum_def)

lemma length_fold_accum [simp]: "length (fold (\<lambda>e. accum (fst e) (snd e)) es sums) = length sums"
  by (induction es arbitrary: sums) auto

lemma nth_fold_accum:
  "in_range (length sums) (map fst es) \<Longrightarrow> c < length sums \<Longrightarrow>
   fold (\<lambda>e. accum (fst e) (snd e)) es sums ! c = sums ! c + col_sum es (int c)"
proof (induction es arbitrary: sums)
  case Nil
  then show ?case by (simp add: col_sum_def)
next
  case (Cons e es)
  then have "0 \<le> fst e" by simp
  then have "int c = fst e \<longleftrightarrow> c = nat (fst e)" by auto
  with Cons show ?case
    by (auto simp: col_sum_def accum_def nth_list_update add.assoc)
qed

lemma col_sum_absent: "c \<notin> fst ` set es \<Longrightarrow> col_sum es c = 0"
proof -
  assume "c \<notin> fst ` set es"
  then have "filter (\<lambda>e. fst e = c) es = []" by (auto simp: filter_empty_conv)
  then show ?thesis by (simp add: col_sum_def)
qed

lemma write_at_Nil [simp]: "write_at n [] xs = xs"
  by (simp add: write_at_def)

lemma length_write_at [simp]: "n + length ys \<le> length xs \<Longrightarrow> length (write_at n ys xs) = length xs"
  by (simp add: write_at_def)

lemma write_at_update:
  "n < length xs \<Longrightarrow> write_at (Suc n) ys (xs[n := v]) = write_at n (v # ys) xs"
  by (simp add: write_at_def take_Suc_conv_app_nth)


section \<open>Lemmas: sum_csr_duplicates\<close>

lemma drained_Cons:
  "drained (k # ks) sums = (if sums ! nat k \<noteq> 0 then (k, sums ! nat k) # drained ks sums else drained ks sums)"
  by (simp add: drained_def)

lemma drained_update:
  "in_range n (k # ks) \<Longrightarrow> k \<notin> set ks \<Longrightarrow> drained ks (sums[nat k := v]) = drained ks sums"
proof -
  assume a: "in_range n (k # ks)" "k \<notin> set ks"
  have "map (\<lambda>c. (c, sums[nat k := v] ! nat c)) ks = map (\<lambda>c. (c, sums ! nat c)) ks"
  proof (rule map_cong [OF refl])
    fix c assume "c \<in> set ks"
    with a have "0 \<le> c" "0 \<le> k" "c \<noteq> k" by (auto simp: in_range_iff)
    then have "nat c \<noteq> nat k" by (simp add: eq_nat_nat_iff)
    then show "(c, sums[nat k := v] ! nat c) = (c, sums ! nat c)" by simp
  qed
  then show ?thesis by (simp only: drained_def)
qed

lemma length_drained: "length (drained ks sums) \<le> length ks"
  by (simp add: drained_def)

lemma clear_Cons: "clear v (k # ks) xs = clear v ks (xs[nat k := v])"
  by (simp add: clear_def)

lemma sum_dups_drain_chain:
  "chain nxt head ks \<Longrightarrow> distinct ks \<Longrightarrow> in_range n ks \<Longrightarrow> 0 \<le> nnz \<Longrightarrow>
   nat nnz + length ks \<le> length Aj \<Longrightarrow> nat nnz + length ks \<le> length Ax \<Longrightarrow>
   sum_dups_drain (head, nxt, sums, Aj, Ax, nnz) =
     Some (-2, clear (-1) ks nxt, clear 0 ks sums,
           write_at (nat nnz) (map fst (drained ks sums)) Aj,
           write_at (nat nnz) (map snd (drained ks sums)) Ax,
           nnz + int (length (drained ks sums)))"
proof (induction ks arbitrary: head nxt sums Aj Ax nnz)
  case Nil
  then show ?case
    by (subst sum_dups_drain.simps) (simp add: clear_def drained_def)
next
  case (Cons k ks)
  have k: "head = k" "0 \<le> k" "k \<notin> set ks" "distinct ks" "in_range n ks"
    and ch: "chain nxt (nxt ! nat k) ks"
    using Cons.prems by auto
  have ch': "chain (nxt[nat k := -1]) (nxt ! nat k) ks"
    using chain_update [OF ch k(5) k(2) k(3)] .
  have dr: "drained ks (sums[nat k := 0]) = drained ks sums"
    using drained_update [of n k ks] Cons.prems k by simp
  show ?case
  proof (cases "sums ! nat k = 0")
    case True
    have "sum_dups_drain (head, nxt, sums, Aj, Ax, nnz) =
          sum_dups_drain (nxt ! nat k, nxt[nat k := -1], sums[nat k := 0], Aj, Ax, nnz)"
      using k True by (subst sum_dups_drain.simps) (simp add: sum_dups_drain_step_def)
    also have "\<dots> = Some (-2, clear (-1) ks (nxt[nat k := -1]), clear 0 ks (sums[nat k := 0]),
           write_at (nat nnz) (map fst (drained ks sums)) Aj,
           write_at (nat nnz) (map snd (drained ks sums)) Ax,
           nnz + int (length (drained ks sums)))"
      using Cons.IH [OF ch' k(4) k(5), of nnz Aj Ax "sums[nat k := 0]"] Cons.prems dr by simp
    finally show ?thesis using True by (simp add: clear_Cons drained_Cons)
  next
    case False
    have n1: "nat (nnz + 1) = Suc (nat nnz)" using Cons.prems by simp
    have lt: "nat nnz < length Aj" "nat nnz < length Ax" using Cons.prems by auto
    have "sum_dups_drain (head, nxt, sums, Aj, Ax, nnz) =
          sum_dups_drain (nxt ! nat k, nxt[nat k := -1], sums[nat k := 0],
             Aj[nat nnz := k], Ax[nat nnz := sums ! nat k], nnz + 1)"
      using k False by (subst sum_dups_drain.simps) (simp add: sum_dups_drain_step_def)
    also have "\<dots> = Some (-2, clear (-1) ks (nxt[nat k := -1]), clear 0 ks (sums[nat k := 0]),
           write_at (nat (nnz + 1)) (map fst (drained ks sums)) (Aj[nat nnz := k]),
           write_at (nat (nnz + 1)) (map snd (drained ks sums)) (Ax[nat nnz := sums ! nat k]),
           nnz + 1 + int (length (drained ks sums)))"
      using Cons.IH [OF ch' k(4) k(5), of "nnz + 1" "Aj[nat nnz := k]" "Ax[nat nnz := sums ! nat k]" "sums[nat k := 0]"]
        Cons.prems dr n1 by simp
    finally show ?thesis
      using False lt by (simp add: clear_Cons drained_Cons n1 write_at_update)
  qed
qed

lemma fold_sum_dups_touch:
  "fold (sum_dups_touch Aj Ax) js (sums, nxt, head) =
     (fold (\<lambda>e. accum (fst e) (snd e)) (map (\<lambda>jj. (Aj ! jj, Ax ! jj)) js) sums,
      fold link0 (map fst (map (\<lambda>jj. (Aj ! jj, Ax ! jj)) js)) (nxt, head))"
proof (induction js arbitrary: sums nxt head)
  case Nil
  then show ?case by simp
next
  case (Cons j js)
  have step: "sum_dups_touch Aj Ax j (sums, nxt, head) =
      (accum (Aj ! j) (Ax ! j) sums, link0 (Aj ! j) (nxt, head))"
    by (simp add: sum_dups_touch_def Let_def)
  show ?case
    by (cases "link0 (Aj ! j) (nxt, head)") (simp add: step Cons.IH)
qed

lemma fold_accum_clean:
  assumes "in_range n (map fst es)"
  shows "fold (\<lambda>e. accum (fst e) (snd e)) es (replicate n 0) = map (\<lambda>c. col_sum es (int c)) [0..<n]"
  using assms by (intro nth_equalityI) (simp_all add: nth_fold_accum)

lemma drained_touched:
  assumes "in_range n ks"
  shows "drained ks (map (\<lambda>c. col_sum es (int c)) [0..<n]) =
         filter (\<lambda>e. snd e \<noteq> 0) (map (\<lambda>c. (c, col_sum es c)) ks)"
proof -
  have "map (\<lambda>c. (c, map (\<lambda>c. col_sum es (int c)) [0..<n] ! nat c)) ks = map (\<lambda>c. (c, col_sum es c)) ks"
  proof (rule map_cong [OF refl])
    fix c assume "c \<in> set ks"
    with assms have "0 \<le> c" "nat c < n" by (auto simp: in_range_iff)
    then show "(c, map (\<lambda>c. col_sum es (int c)) [0..<n] ! nat c) = (c, col_sum es c)" by simp
  qed
  then show ?thesis by (simp only: drained_def)
qed

lemma clear_sums_touched:
  assumes "set ks = fst ` set es" "in_range n ks"
  shows "clear 0 ks (map (\<lambda>c. col_sum es (int c)) [0..<n]) = replicate n 0"
  using assms by (intro nth_equalityI) (auto simp: nth_clear col_sum_absent)



lemma write_at_write_at:
  "length ys + length zs \<le> length xs \<Longrightarrow>
   write_at (length ys) zs (write_at 0 ys xs) = write_at 0 (ys @ zs) xs"
  by (simp add: write_at_def add.commute)

lemma nth_write_at_ge:
  "length ys \<le> m \<Longrightarrow> length ys \<le> length xs \<Longrightarrow> write_at 0 ys xs ! m = xs ! m"
  by (simp add: write_at_def nth_append)

lemma length_coalesce_row: "length (coalesce_row es) \<le> length es"
proof -
  have "length (coalesce_row es) \<le> length (drain_order es)"
    by (simp add: coalesce_row_def)
  also have "\<dots> \<le> length es"
    using length_fold_ins [of "map fst es" "[]"] by (simp add: drain_order_def)
  finally show ?thesis .
qed

lemma sum_dups_row_clean:
  fixes Ax :: "'a::comm_monoid_add list"
  assumes es: "es = map (\<lambda>jj. (Aj ! jj, Ax ! jj)) (span row_end (Ap ! (i + 1)))"
    and rng: "in_range n_col (map fst es)"
    and bnd: "0 \<le> nnz" "nnz \<le> row_end" "row_end \<le> Ap ! (i + 1)"
      "Ap ! (i + 1) \<le> int (length Aj)" "Ap ! (i + 1) \<le> int (length Ax)"
  shows "sum_dups_row i (Ap, Aj, Ax, replicate n_col (-1), replicate n_col 0, nnz, row_end) =
     Some (Ap[i + 1 := nnz + int (length (coalesce_row es))],
           write_at (nat nnz) (map fst (coalesce_row es)) Aj,
           write_at (nat nnz) (map snd (coalesce_row es)) Ax,
           replicate n_col (-1), replicate n_col 0,
           nnz + int (length (coalesce_row es)), Ap ! (i + 1))"
proof -
  define ks where "ks = drain_order es"
  obtain nxt' head' where
    lk: "fold link0 (map fst es) (replicate n_col (-1), -2) = (nxt', head')"
    and inv: "acc_inv n_col ks nxt' head'"
    using fold_link0_inv [OF acc_inv_empty rng] by (auto simp: ks_def drain_order_def)
  have sums': "fold (\<lambda>e. accum (fst e) (snd e)) es (replicate n_col (0::'a)) =
      map (\<lambda>c. col_sum es (int c)) [0..<n_col]"
    using fold_accum_clean [OF rng] .
  have touch: "fold (sum_dups_touch Aj Ax) (span row_end (Ap ! (i + 1))) (replicate n_col 0, replicate n_col (-1), -2) =
      (map (\<lambda>c. col_sum es (int c)) [0..<n_col], nxt', head')"
    using lk sums' by (simp add: fold_sum_dups_touch es)
  have len_es: "length es = nat (Ap ! (i + 1)) - nat row_end"
    by (simp add: es span_def)
  have "length ks \<le> length es"
    using length_fold_ins [of "map fst es" "[]"] by (simp add: ks_def drain_order_def)
  then have room: "nat nnz + length ks \<le> length Aj" "nat nnz + length ks \<le> length Ax"
    using bnd len_es by linarith+
  have ksr: "in_range n_col ks" "distinct ks" "chain nxt' head' ks"
    using inv by (auto simp: acc_inv_def)
  have setks: "set ks = fst ` set es"
    by (simp add: ks_def drain_order_def set_fold_ins)
  have cr: "coalesce_row es = drained ks (map (\<lambda>c. col_sum es (int c)) [0..<n_col])"
    using drained_touched [OF ksr(1), of es] by (simp add: coalesce_row_def ks_def)
  have drain: "sum_dups_drain (head', nxt', map (\<lambda>c. col_sum es (int c)) [0..<n_col], Aj, Ax, nnz) =
     Some (-2, replicate n_col (-1), replicate n_col 0,
           write_at (nat nnz) (map fst (coalesce_row es)) Aj,
           write_at (nat nnz) (map snd (coalesce_row es)) Ax,
           nnz + int (length (coalesce_row es)))"
    using sum_dups_drain_chain [OF ksr(3) ksr(2) ksr(1) bnd(1) room,
        of "map (\<lambda>c. col_sum es (int c)) [0..<n_col]"]
    by (simp add: clear_acc_inv [OF inv] clear_sums_touched [OF setks ksr(1)] cr)
  show ?thesis
    using touch drain by (simp add: sum_dups_row_def sum_dups_touched_def Let_def)
qed

lemma csr_valid_ptr:
  assumes "csr_valid n_row n_col Ap Aj Ax" "i \<le> j" "j \<le> n_row"
  shows "0 \<le> Ap ! i" "Ap ! i \<le> Ap ! j" "Ap ! j \<le> int (length Aj)" "Ap ! j \<le> int (length Ax)"
proof -
  have s: "sorted Ap" "length Ap = n_row + 1" "Ap ! 0 = 0"
    using assms by (auto simp: csr_valid_def)
  show "Ap ! i \<le> Ap ! j" using s assms by (simp add: sorted_nth_mono)
  show "0 \<le> Ap ! i" using sorted_nth_mono [of Ap 0 i] s assms by simp
  have "Ap ! j \<le> Ap ! n_row" using s assms by (simp add: sorted_nth_mono)
  then show "Ap ! j \<le> int (length Aj)" "Ap ! j \<le> int (length Ax)"
    using assms by (auto simp: csr_valid_def)
qed

lemma csr_valid_row_range:
  assumes "csr_valid n_row n_col Ap Aj Ax" "i < n_row"
  shows "in_range n_col (map fst (row_entries Ap Aj Ax i))"
proof -
  have le: "Ap ! (i + 1) \<le> Ap ! n_row" "Ap ! n_row \<le> int (length Aj)"
    using csr_valid_ptr [OF assms(1), of "i + 1" n_row] assms(2) by auto
  have all: "\<forall>j\<in>set (take (nat (Ap ! n_row)) Aj). 0 \<le> j \<and> j < int n_col"
    using assms by (auto simp: csr_valid_def list_all_iff)
  have "0 \<le> Aj ! jj \<and> Aj ! jj < int n_col" if "jj \<in> set (row_span Ap i)" for jj
  proof -
    from that le have jj: "jj < nat (Ap ! n_row)" "jj < length Aj"
      by (auto simp: row_span_def span_def)
    then have "take (nat (Ap ! n_row)) Aj ! jj = Aj ! jj" by simp
    moreover have "take (nat (Ap ! n_row)) Aj ! jj \<in> set (take (nat (Ap ! n_row)) Aj)"
      using jj by (intro nth_mem) simp
    ultimately show ?thesis using all by metis
  qed
  then show ?thesis by (auto simp: in_range_iff row_entries_def)
qed

lemma coalesced_Suc:
  "coalesced Ap Aj Ax (Suc k) = coalesced Ap Aj Ax k @ coalesce_row (row_entries Ap Aj Ax k)"
  by (simp add: coalesced_def)

lemma length_row_entries: "length (row_entries Ap Aj Ax i) = nat (Ap ! (i + 1)) - nat (Ap ! i)"
  by (simp add: row_entries_def row_span_def span_def)

lemma length_coalesced:
  assumes "csr_valid n_row n_col Ap Aj Ax" "k \<le> n_row"
  shows "int (length (coalesced Ap Aj Ax k)) \<le> Ap ! k"
  using assms(2)
proof (induction k)
  case 0
  then show ?case using csr_valid_ptr [OF assms(1), of 0 0] by (simp add: coalesced_def)
next
  case (Suc k)
  have "length (coalesce_row (row_entries Ap Aj Ax k)) \<le> nat (Ap ! (k + 1)) - nat (Ap ! k)"
    using length_coalesce_row [of "row_entries Ap Aj Ax k"] by (simp add: length_row_entries)
  moreover have "0 \<le> Ap ! k" "Ap ! k \<le> Ap ! (k + 1)"
    using csr_valid_ptr [OF assms(1), of k "k + 1"] Suc.prems by auto
  ultimately show ?case using Suc by (simp add: coalesced_Suc)
qed

lemma sum_dups_rows_Suc:
  "sum_dups_rows (Suc k) n_col Ap Aj Ax = Option.bind (sum_dups_rows k n_col Ap Aj Ax) (sum_dups_row k)"
  by (simp add: sum_dups_rows_def)

lemma coalesced_ptr_0:
  assumes "csr_valid n_row n_col Ap Aj Ax"
  shows "coalesced_ptr n_row Ap Aj Ax 0 = Ap"
proof (rule nth_equalityI)
  show "length (coalesced_ptr n_row Ap Aj Ax 0) = length Ap"
    using assms by (simp add: coalesced_ptr_def csr_valid_def)
next
  fix i assume "i < length (coalesced_ptr n_row Ap Aj Ax 0)"
  then have "i < n_row + 1" by (simp add: coalesced_ptr_def)
  then show "coalesced_ptr n_row Ap Aj Ax 0 ! i = Ap ! i"
    using assms unfolding coalesced_ptr_def csr_valid_def coalesced_def
    by (cases i) (simp_all del: upt_Suc)
qed

lemma coalesced_ptr_Suc:
  assumes "k < n_row"
  shows "(coalesced_ptr n_row Ap Aj Ax k)[k + 1 := int (length (coalesced Ap Aj Ax (Suc k)))] =
         coalesced_ptr n_row Ap Aj Ax (Suc k)"
proof (rule nth_equalityI)
  show "length ((coalesced_ptr n_row Ap Aj Ax k)[k + 1 := int (length (coalesced Ap Aj Ax (Suc k)))]) =
        length (coalesced_ptr n_row Ap Aj Ax (Suc k))"
    by (simp add: coalesced_ptr_def)
next
  fix i assume "i < length ((coalesced_ptr n_row Ap Aj Ax k)[k + 1 := int (length (coalesced Ap Aj Ax (Suc k)))])"
  then have i: "i < n_row + 1" by (simp add: coalesced_ptr_def)
  show "(coalesced_ptr n_row Ap Aj Ax k)[k + 1 := int (length (coalesced Ap Aj Ax (Suc k)))] ! i =
        coalesced_ptr n_row Ap Aj Ax (Suc k) ! i"
  proof (cases "i = k + 1")
    case True
    then show ?thesis using i unfolding coalesced_ptr_def by (simp del: upt_Suc)
  next
    case False
    then show ?thesis using i unfolding coalesced_ptr_def by (auto simp del: upt_Suc)
  qed
qed



lemma sum_dups_rows_inv:
  fixes Ax :: "'a::comm_monoid_add list"
  assumes v: "csr_valid n_row n_col Ap Aj Ax"
  shows "k \<le> n_row \<Longrightarrow> sum_dups_rows k n_col Ap Aj Ax =
     Some (coalesced_ptr n_row Ap Aj Ax k,
           write_at 0 (map fst (coalesced Ap Aj Ax k)) Aj,
           write_at 0 (map snd (coalesced Ap Aj Ax k)) Ax,
           replicate n_col (-1), replicate n_col 0,
           int (length (coalesced Ap Aj Ax k)), Ap ! k)"
proof (induction k)
  case 0
  have "Ap ! 0 = 0" using v by (simp add: csr_valid_def)
  then show ?case
    by (simp add: sum_dups_rows_def coalesced_ptr_0 [OF v]) (simp add: coalesced_def)
next
  case (Suc k)
  define C where "C = coalesced Ap Aj Ax k"
  define Aj' where "Aj' = write_at 0 (map fst C) Aj"
  define Ax' where "Ax' = write_at 0 (map snd C) Ax"
  define Ap' where "Ap' = coalesced_ptr n_row Ap Aj Ax k"
  define out where "out = coalesce_row (row_entries Ap Aj Ax k)"
  have k: "k < n_row" "k \<le> n_row" using Suc.prems by auto
  have p: "0 \<le> Ap ! k" "Ap ! k \<le> Ap ! (k + 1)" "Ap ! (k + 1) \<le> int (length Aj)"
    "Ap ! (k + 1) \<le> int (length Ax)"
    using csr_valid_ptr [OF v, of k "k + 1"] k by auto
  have lenC: "int (length C) \<le> Ap ! k"
    using length_coalesced [OF v k(2)] by (simp add: C_def)
  have lens: "length Aj' = length Aj" "length Ax' = length Ax"
    using lenC p by (auto simp: Aj'_def Ax'_def)
  have ptr: "Ap' ! (k + 1) = Ap ! (k + 1)"
    using k unfolding Ap'_def coalesced_ptr_def by (simp del: upt_Suc)
  have es: "row_entries Ap Aj Ax k = map (\<lambda>jj. (Aj' ! jj, Ax' ! jj)) (span (Ap ! k) (Ap' ! (k + 1)))"
    unfolding row_entries_def row_span_def ptr
  proof (rule map_cong [OF refl])
    fix jj assume "jj \<in> set (span (Ap ! k) (Ap ! (k + 1)))"
    then have "length C \<le> jj" "jj < length Aj" "jj < length Ax"
      using lenC p by (auto simp: span_def)
    then show "(Aj ! jj, Ax ! jj) = (Aj' ! jj, Ax' ! jj)"
      by (simp add: Aj'_def Ax'_def nth_write_at_ge)
  qed
  have rng: "in_range n_col (map fst (row_entries Ap Aj Ax k))"
    using csr_valid_row_range [OF v k(1)] .
  have row: "sum_dups_row k (Ap', Aj', Ax', replicate n_col (-1), replicate n_col 0, int (length C), Ap ! k) =
     Some (Ap'[k + 1 := int (length C) + int (length out)],
           write_at (nat (int (length C))) (map fst out) Aj',
           write_at (nat (int (length C))) (map snd out) Ax',
           replicate n_col (-1), replicate n_col 0,
           int (length C) + int (length out), Ap' ! (k + 1))"
    unfolding out_def
    by (rule sum_dups_row_clean [OF es rng]) (use lenC p ptr lens in auto)
  have lo: "length out \<le> nat (Ap ! (k + 1)) - nat (Ap ! k)"
    using length_coalesce_row [of "row_entries Ap Aj Ax k"]
    by (simp add: out_def length_row_entries)
  have room: "length C + length out \<le> length Aj" "length C + length out \<le> length Ax"
    using lo lenC p by linarith+
  have CS: "coalesced Ap Aj Ax (Suc k) = C @ out"
    by (simp add: coalesced_Suc C_def out_def)
  have w1: "write_at (nat (int (length C))) (map fst out) Aj' = write_at 0 (map fst (C @ out)) Aj"
    using write_at_write_at [of "map fst C" "map fst out" Aj] room by (simp add: Aj'_def)
  have w2: "write_at (nat (int (length C))) (map snd out) Ax' = write_at 0 (map snd (C @ out)) Ax"
    using write_at_write_at [of "map snd C" "map snd out" Ax] room by (simp add: Ax'_def)
  have w3: "Ap'[k + 1 := int (length C) + int (length out)] = coalesced_ptr n_row Ap Aj Ax (Suc k)"
    using coalesced_ptr_Suc [OF k(1), of Ap Aj Ax] by (simp add: CS Ap'_def)
  have "sum_dups_rows (Suc k) n_col Ap Aj Ax =
     sum_dups_row k (Ap', Aj', Ax', replicate n_col (-1), replicate n_col 0, int (length C), Ap ! k)"
    using Suc.IH k by (simp add: sum_dups_rows_Suc C_def Aj'_def Ax'_def Ap'_def)
  then show ?case
    by (simp only: row w1 w2 w3 ptr CS) simp
qed



lemma sum_csr_duplicates_eq:
  fixes Ax :: "'a::comm_monoid_add list"
  assumes "csr_valid n_row n_col Ap Aj Ax"
  shows "sum_csr_duplicates n_row n_col Ap Aj Ax =
     Some (coalesced_ptr n_row Ap Aj Ax n_row,
           write_at 0 (map fst (coalesced Ap Aj Ax n_row)) Aj,
           write_at 0 (map snd (coalesced Ap Aj Ax n_row)) Ax)"
  by (simp add: sum_csr_duplicates_def sum_dups_rows_inv [OF assms])

lemma coalesced_prefix:
  "i \<le> n \<Longrightarrow> \<exists>rest. coalesced Ap Aj Ax n = coalesced Ap Aj Ax i @ rest"
proof (induction n)
  case 0
  then show ?case by simp
next
  case (Suc n)
  show ?case
  proof (cases "i = Suc n")
    case True
    then show ?thesis by simp
  next
    case False
    with Suc obtain rest where "coalesced Ap Aj Ax n = coalesced Ap Aj Ax i @ rest" by auto
    then show ?thesis by (simp add: coalesced_Suc)
  qed
qed

lemma coalesced_split:
  assumes "i < n"
  shows "\<exists>rest. coalesced Ap Aj Ax n =
     coalesced Ap Aj Ax i @ coalesce_row (row_entries Ap Aj Ax i) @ rest"
  using coalesced_prefix [of "Suc i" n Ap Aj Ax] assms by (auto simp: coalesced_Suc)

lemma length_coalesced_mono:
  "i \<le> j \<Longrightarrow> length (coalesced Ap Aj Ax i) \<le> length (coalesced Ap Aj Ax j)"
  using coalesced_prefix [of i j Ap Aj Ax] by auto

lemma nth_slice:
  "map ((!) (xs @ ys @ zs)) [length xs ..< length xs + length ys] = ys"
  by (rule nth_equalityI) (simp_all add: nth_append)

lemma fst_coalesce_row: "map fst (coalesce_row es) = filter (\<lambda>c. col_sum es c \<noteq> 0) (drain_order es)"
  by (simp add: coalesce_row_def filter_map comp_def)

lemma distinct_drain_order: "distinct (drain_order es)"
  by (simp add: drain_order_def distinct_fold_ins)

lemma set_drain_order: "set (drain_order es) = fst ` set es"
  by (simp add: drain_order_def set_fold_ins)

lemma distinct_coalesce_row: "distinct (map fst (coalesce_row es))"
  by (simp add: fst_coalesce_row distinct_drain_order)

lemma set_coalesce_row: "fst ` set (coalesce_row es) \<subseteq> fst ` set es"
  using set_drain_order [of es] by (force simp: coalesce_row_def)

lemma coalesce_row_nonzero: "e \<in> set (coalesce_row es) \<Longrightarrow> snd e \<noteq> 0"
  by (auto simp: coalesce_row_def)

lemma col_sum_distinct:
  "distinct (map fst es) \<Longrightarrow> e \<in> set es \<Longrightarrow> col_sum es (fst e) = snd e"
proof (induction es)
  case Nil
  then show ?case by simp
next
  case (Cons a es)
  show ?case
  proof (cases "e = a")
    case True
    have "fst a \<notin> fst ` set es" using Cons.prems by simp
    then have "\<forall>e'\<in>set es. fst e' \<noteq> fst a" by (metis imageI)
    then have "filter (\<lambda>e'. fst e' = fst a) es = []"
      by (simp add: filter_empty_conv)
    then show ?thesis using True by (simp add: col_sum_def)
  next
    case False
    then have "e \<in> set es" using Cons.prems by simp
    moreover from this have "fst a \<noteq> fst e" using Cons.prems by force
    ultimately show ?thesis using Cons by (simp add: col_sum_def)
  qed
qed

lemma coalesce_row_fixed:
  fixes es :: "(int \<times> 'a::comm_monoid_add) list"
  assumes d: "distinct (map fst es)" and nz: "\<forall>e\<in>set es. snd e \<noteq> 0"
  shows "coalesce_row es = rev es"
proof -
  have "drain_order es = rev (map fst es)"
    using fold_ins_distinct [of "map fst es" "[]"] d by (simp add: drain_order_def)
  moreover have "map (\<lambda>c. (c, col_sum es c)) (rev (map fst es)) = rev es"
  proof -
    have "map (\<lambda>c. (c, col_sum es c)) (rev (map fst es)) =
          rev (map (\<lambda>e. (fst e, col_sum es (fst e))) es)"
      by (simp add: rev_map comp_def)
    also have "map (\<lambda>e. (fst e, col_sum es (fst e))) es = es"
      by (rule map_idI) (simp add: col_sum_distinct [OF d])
    finally show ?thesis .
  qed
  moreover have "filter (\<lambda>e. snd e \<noteq> 0) (rev es) = rev es"
    using nz by (simp add: filter_id_conv)
  ultimately show ?thesis by (simp add: coalesce_row_def)
qed

lemma coalesce_row_twice:
  "coalesce_row (coalesce_row es) = rev (coalesce_row es)"
  by (rule coalesce_row_fixed) (simp_all add: distinct_coalesce_row coalesce_row_nonzero)

text \<open>The rows of the coalesced matrix.\<close>

lemma coalesced_ptr_nth:
  "i \<le> n_row \<Longrightarrow> coalesced_ptr n_row Ap Aj Ax n_row ! i = int (length (coalesced Ap Aj Ax i))"
  unfolding coalesced_ptr_def by (simp del: upt_Suc)

lemma row_entries_coalesced:
  fixes Ax :: "'a::comm_monoid_add list"
  assumes v: "csr_valid n_row n_col Ap Aj Ax" and i: "i < n_row"
  shows "row_entries (coalesced_ptr n_row Ap Aj Ax n_row)
           (write_at 0 (map fst (coalesced Ap Aj Ax n_row)) Aj)
           (write_at 0 (map snd (coalesced Ap Aj Ax n_row)) Ax) i =
         coalesce_row (row_entries Ap Aj Ax i)"
proof -
  define C where "C = coalesced Ap Aj Ax n_row"
  define out where "out = coalesce_row (row_entries Ap Aj Ax i)"
  obtain rest where C: "C = coalesced Ap Aj Ax i @ out @ rest"
    using coalesced_split [OF i, of Ap Aj Ax] by (auto simp: C_def out_def)
  have lenC: "length C \<le> length Aj" "length C \<le> length Ax"
    using length_coalesced [OF v, of n_row] csr_valid_ptr [OF v, of n_row n_row]
    by (auto simp: C_def)
  have sp: "row_span (coalesced_ptr n_row Ap Aj Ax n_row) i =
     [length (coalesced Ap Aj Ax i) ..< length (coalesced Ap Aj Ax i) + length out]"
    using i by (simp add: row_span_def span_def coalesced_ptr_nth coalesced_Suc out_def nat_int_add)
  have "map (\<lambda>jj. (write_at 0 (map fst C) Aj ! jj, write_at 0 (map snd C) Ax ! jj))
          [length (coalesced Ap Aj Ax i) ..< length (coalesced Ap Aj Ax i) + length out] =
        map ((!) C) [length (coalesced Ap Aj Ax i) ..< length (coalesced Ap Aj Ax i) + length out]"
  proof (rule map_cong [OF refl])
    fix jj assume "jj \<in> set [length (coalesced Ap Aj Ax i) ..< length (coalesced Ap Aj Ax i) + length out]"
    then have "jj < length C" by (simp add: C)
    then show "(write_at 0 (map fst C) Aj ! jj, write_at 0 (map snd C) Ax ! jj) = C ! jj"
      by (simp add: write_at_def nth_append)
  qed
  also have "\<dots> = out"
    unfolding C by (rule nth_slice)
  finally show ?thesis
    by (simp add: row_entries_def sp C_def out_def)
qed

lemma csr_valid_coalesced:
  fixes Ax :: "'a::comm_monoid_add list"
  assumes v: "csr_valid n_row n_col Ap Aj Ax"
  shows "csr_valid n_row n_col (coalesced_ptr n_row Ap Aj Ax n_row)
           (write_at 0 (map fst (coalesced Ap Aj Ax n_row)) Aj)
           (write_at 0 (map snd (coalesced Ap Aj Ax n_row)) Ax)"
proof -
  define C where "C = coalesced Ap Aj Ax n_row"
  have lenC: "length C \<le> length Aj" "length C \<le> length Ax"
    using length_coalesced [OF v, of n_row] csr_valid_ptr [OF v, of n_row n_row]
    by (auto simp: C_def)
  have srt: "sorted (coalesced_ptr n_row Ap Aj Ax n_row)"
    unfolding sorted_iff_nth_mono
  proof (intro allI impI)
    fix i j assume ij: "i \<le> j" "j < length (coalesced_ptr n_row Ap Aj Ax n_row)"
    then have "j \<le> n_row" by (simp add: coalesced_ptr_def)
    with ij show "coalesced_ptr n_row Ap Aj Ax n_row ! i \<le> coalesced_ptr n_row Ap Aj Ax n_row ! j"
      by (simp add: coalesced_ptr_nth length_coalesced_mono)
  qed
  have tk: "take (length C) (write_at 0 (map fst C) Aj) = map fst C"
    by (simp add: write_at_def)
  have "fst e \<in> fst ` set (row_entries Ap Aj Ax r)" if "e \<in> set (coalesce_row (row_entries Ap Aj Ax r))" for e r
    using set_coalesce_row [of "row_entries Ap Aj Ax r"] that by auto
  then have rng: "in_range n_col (map fst C)"
    using csr_valid_row_range [OF v] unfolding C_def coalesced_def in_range_iff
    by fastforce
  show ?thesis
    unfolding csr_valid_def C_def [symmetric]
    using srt lenC rng
    by (simp add: coalesced_ptr_nth tk C_def [symmetric] in_range_def)
      (simp add: coalesced_ptr_def coalesced_def C_def)
qed



lemma length_concat_rev:
  "length (concat (map (\<lambda>r. rev (f r)) rs)) = length (concat (map f rs))"
  by (induction rs) auto

section \<open>Claims on coo_tocsr and sum_csr_duplicates\<close>

text \<open>
  C1 (the code departs from the claim and from its own header comment): the header of
  \<open>coo_tocsr\<close> promises that the column indices of the output are in sorted order, but
  the final \<open>sum_csr_duplicates\<close> emits each row in drain order. For the valid
  coordinate input with the two entries (0, 0) and (0, 1), both of value 1, the output
  row 0 holds the columns 1, 0: it is not sorted.
\<close>

theorem coo_tocsr_unsorted_row:
  "coo_valid 1 2 2 [0, 0] [0, 1] [1, 1 :: int] \<and>
   coo_tocsr 1 2 2 [0, 0] [0, 1] [1, 1 :: int] [0, 0] [0, 0] [0, 0] = Some ([0, 2], [1, 0], [1, 1]) \<and>
   \<not> sorted (map fst (row_entries [0, 2] [1, 0] [1, 1 :: int] 0))"
  by code_simp


text \<open>
  C2 (amended): \<open>sum_csr_duplicates\<close> is not idempotent entry for entry. For every valid
  compressed matrix both applications return; the second application leaves the pointer
  array of the first unchanged and stores, in every row, the entries of the first
  application in reversed order. So the two results hold the same (column, value) pairs
  in every row, but not at the same positions.
\<close>

theorem sum_csr_duplicates_twice:
  fixes Ax :: "'a::comm_monoid_add list"
  assumes v: "csr_valid n_row n_col Ap Aj Ax"
  shows "\<exists>Ap' Aj' Ax' Aj'' Ax''.
     sum_csr_duplicates n_row n_col Ap Aj Ax = Some (Ap', Aj', Ax') \<and>
     sum_csr_duplicates n_row n_col Ap' Aj' Ax' = Some (Ap', Aj'', Ax'') \<and>
     (\<forall>i<n_row. row_entries Ap' Aj'' Ax'' i = rev (row_entries Ap' Aj' Ax' i))"
proof -
  define Ap' where "Ap' = coalesced_ptr n_row Ap Aj Ax n_row"
  define Aj' where "Aj' = write_at 0 (map fst (coalesced Ap Aj Ax n_row)) Aj"
  define Ax' where "Ax' = write_at 0 (map snd (coalesced Ap Aj Ax n_row)) Ax"
  define Aj'' where "Aj'' = write_at 0 (map fst (coalesced Ap' Aj' Ax' n_row)) Aj'"
  define Ax'' where "Ax'' = write_at 0 (map snd (coalesced Ap' Aj' Ax' n_row)) Ax'"
  have v': "csr_valid n_row n_col Ap' Aj' Ax'"
    unfolding Ap'_def Aj'_def Ax'_def by (rule csr_valid_coalesced [OF v])
  have once: "sum_csr_duplicates n_row n_col Ap Aj Ax = Some (Ap', Aj', Ax')"
    unfolding Ap'_def Aj'_def Ax'_def by (rule sum_csr_duplicates_eq [OF v])
  have rows': "row_entries Ap' Aj' Ax' i = coalesce_row (row_entries Ap Aj Ax i)" if "i < n_row" for i
    unfolding Ap'_def Aj'_def Ax'_def by (rule row_entries_coalesced [OF v that])
  have co: "coalesced Ap' Aj' Ax' j =
      concat (map (\<lambda>r. rev (coalesce_row (row_entries Ap Aj Ax r))) [0..<j])" if "j \<le> n_row" for j
  proof -
    have "map (\<lambda>r. coalesce_row (row_entries Ap' Aj' Ax' r)) [0..<j] =
          map (\<lambda>r. rev (coalesce_row (row_entries Ap Aj Ax r))) [0..<j]"
      using that by (intro map_cong [OF refl]) (simp add: rows' coalesce_row_twice)
    then show ?thesis by (simp only: coalesced_def)
  qed
  have len: "length (coalesced Ap' Aj' Ax' j) = length (coalesced Ap Aj Ax j)" if "j \<le> n_row" for j
  proof -
    have "length (coalesced Ap' Aj' Ax' j) =
          length (concat (map (\<lambda>r. rev (coalesce_row (row_entries Ap Aj Ax r))) [0..<j]))"
      by (simp only: co [OF that])
    also have "\<dots> = length (coalesced Ap Aj Ax j)"
      unfolding coalesced_def by (rule length_concat_rev)
    finally show ?thesis .
  qed
  have ptr: "coalesced_ptr n_row Ap' Aj' Ax' n_row = Ap'"
  proof (rule nth_equalityI)
    show "length (coalesced_ptr n_row Ap' Aj' Ax' n_row) = length Ap'"
      by (simp add: Ap'_def coalesced_ptr_def)
  next
    fix i assume "i < length (coalesced_ptr n_row Ap' Aj' Ax' n_row)"
    then have i: "i \<le> n_row" by (simp add: coalesced_ptr_def)
    have "Ap' ! i = int (length (coalesced Ap Aj Ax i))"
      unfolding Ap'_def by (rule coalesced_ptr_nth [OF i])
    then show "coalesced_ptr n_row Ap' Aj' Ax' n_row ! i = Ap' ! i"
      by (simp add: coalesced_ptr_nth [OF i] len [OF i])
  qed
  have twice: "sum_csr_duplicates n_row n_col Ap' Aj' Ax' = Some (Ap', Aj'', Ax'')"
    using sum_csr_duplicates_eq [OF v'] by (simp add: ptr Aj''_def Ax''_def)
  have "row_entries Ap' Aj'' Ax'' i = rev (row_entries Ap' Aj' Ax' i)" if "i < n_row" for i
  proof -
    have "row_entries (coalesced_ptr n_row Ap' Aj' Ax' n_row) Aj'' Ax'' i =
          coalesce_row (row_entries Ap' Aj' Ax' i)"
      unfolding Aj''_def Ax''_def by (rule row_entries_coalesced [OF v' that])
    then show ?thesis by (simp add: ptr rows' [OF that] coalesce_row_twice)
  qed
  with once twice show ?thesis by blast
qed

text \<open>The theorem applied to a matrix with one row and the columns 0, 1.\<close>

theorem sum_csr_duplicates_twice_witness:
  "csr_valid 1 2 [0, 2] [0, 1] [1, 1 :: int] \<and>
   (\<exists>Ap' Aj' Ax' Aj'' Ax''.
     sum_csr_duplicates 1 2 [0, 2] [0, 1] [1, 1 :: int] = Some (Ap', Aj', Ax') \<and>
     sum_csr_duplicates 1 2 Ap' Aj' Ax' = Some (Ap', Aj'', Ax'') \<and>
     (\<forall>i<1. row_entries Ap' Aj'' Ax'' i = rev (row_entries Ap' Aj' Ax' i)))"
proof -
  have v: "csr_valid 1 2 [0, 2] [0, 1] [1, 1 :: int]"
    by (simp add: csr_valid_def)
  show ?thesis
    using v sum_csr_duplicates_twice [OF v] by simp
qed

text \<open>
  C2 as stated fails: on that matrix the first application returns the columns 1, 0 and
  the second, applied to this result, returns the columns 0, 1.
\<close>

theorem sum_csr_duplicates_not_idempotent:
  "csr_valid 1 2 [0, 2] [0, 1] [1, 1 :: int] \<and>
   sum_csr_duplicates 1 2 [0, 2] [0, 1] [1, 1 :: int] = Some ([0, 2], [1, 0], [1, 1]) \<and>
   sum_csr_duplicates 1 2 [0, 2] [1, 0] [1, 1 :: int] = Some ([0, 2], [0, 1], [1, 1]) \<and>
   ([0, 2 :: int], [0, 1 :: int], [1, 1 :: int]) \<noteq> ([0, 2], [1, 0], [1, 1])"
  by code_simp


lemma sum_dups_touched_clean:
  fixes Ax :: "'a::comm_monoid_add list"
  assumes es: "es = map (\<lambda>jj. (Aj ! jj, Ax ! jj)) (span row_end (Ap ! (i + 1)))"
    and rng: "in_range n_col (map fst es)"
  shows "\<exists>nxt' head'.
     sum_dups_touched i (Ap, Aj, Ax, replicate n_col (-1), replicate n_col 0, nnz, row_end) =
       (head', nxt', map (\<lambda>c. col_sum es (int c)) [0..<n_col], Aj, Ax, nnz) \<and>
     acc_inv n_col (drain_order es) nxt' head'"
proof -
  obtain nxt' head' where
    lk: "fold link0 (map fst es) (replicate n_col (-1), -2) = (nxt', head')"
    and inv: "acc_inv n_col (drain_order es) nxt' head'"
    using fold_link0_inv [OF acc_inv_empty rng] by (auto simp: drain_order_def)
  have sums': "fold (\<lambda>e. accum (fst e) (snd e)) es (replicate n_col (0::'a)) =
      map (\<lambda>c. col_sum es (int c)) [0..<n_col]"
    using fold_accum_clean [OF rng] .
  have "fold (sum_dups_touch Aj Ax) (span row_end (Ap ! (i + 1))) (replicate n_col 0, replicate n_col (-1), -2) =
      (map (\<lambda>c. col_sum es (int c)) [0..<n_col], nxt', head')"
    using lk sums' by (simp add: fold_sum_dups_touch es)
  then have "sum_dups_touched i (Ap, Aj, Ax, replicate n_col (-1), replicate n_col 0, nnz, row_end) =
       (head', nxt', map (\<lambda>c. col_sum es (int c)) [0..<n_col], Aj, Ax, nnz)"
    by (simp add: sum_dups_touched_def Let_def)
  with inv show ?thesis by blast
qed

lemma drain_iter_chain:
  "chain nxt head ks \<Longrightarrow> distinct ks \<Longrightarrow> in_range N ks \<Longrightarrow> 0 \<le> nnz \<Longrightarrow>
   drain_iter n (head, nxt, sums, Aj, Ax, nnz) = Some (head', nxt', sums', Aj', Ax', nnz') \<Longrightarrow>
   n \<le> length ks \<and> (head' \<noteq> -2 \<longrightarrow> n < length ks) \<and> nnz \<le> nnz' \<and> nnz' \<le> nnz + int n \<and>
   (\<forall>m. nat nnz + length ks \<le> m \<longrightarrow> Aj' ! m = Aj ! m \<and> Ax' ! m = Ax ! m)"
proof (induction n arbitrary: head nxt sums Aj Ax nnz ks)
  case 0
  then show ?case by (cases ks) auto
next
  case (Suc n)
  from Suc.prems(5) have hd: "head \<noteq> -2" by (auto split: if_splits)
  with Suc.prems(1) obtain k ks' where ks: "ks = k # ks'" by (cases ks) auto
  have k: "head = k" "0 \<le> k" "k \<notin> set ks'" "distinct ks'" "in_range N ks'"
    and ch: "chain nxt (nxt ! nat k) ks'"
    using Suc.prems ks by auto
  have ch': "chain (nxt[nat k := -1]) (nxt ! nat k) ks'"
    using chain_update [OF ch k(5) k(2) k(3)] .
  show ?case
  proof (cases "sums ! nat k = 0")
    case True
    have "drain_iter n (nxt ! nat k, nxt[nat k := -1], sums[nat k := 0], Aj, Ax, nnz) =
          Some (head', nxt', sums', Aj', Ax', nnz')"
      using Suc.prems(5) hd k True by (simp add: sum_dups_drain_step_def)
    from Suc.IH [OF ch' k(4) k(5) Suc.prems(4) this] show ?thesis
      by (auto simp: ks)
  next
    case False
    have it: "drain_iter n (nxt ! nat k, nxt[nat k := -1], sums[nat k := 0],
            Aj[nat nnz := k], Ax[nat nnz := sums ! nat k], nnz + 1) =
          Some (head', nxt', sums', Aj', Ax', nnz')"
      using Suc.prems(5) hd k False by (simp add: sum_dups_drain_step_def)
    have nn: "0 \<le> nnz + 1" "nat (nnz + 1) = Suc (nat nnz)" using Suc.prems(4) by auto
    from Suc.IH [OF ch' k(4) k(5) nn(1) it] show ?thesis
      by (auto simp: ks nn(2))
  qed
qed


lemma row_entries_unread:
  fixes Ax :: "'a::comm_monoid_add list"
  assumes v: "csr_valid n_row n_col Ap Aj Ax" and k: "k < n_row"
  shows "row_entries Ap Aj Ax k =
     map (\<lambda>jj. (write_at 0 (map fst (coalesced Ap Aj Ax k)) Aj ! jj,
                 write_at 0 (map snd (coalesced Ap Aj Ax k)) Ax ! jj))
       (span (Ap ! k) (coalesced_ptr n_row Ap Aj Ax k ! (k + 1)))"
proof -
  have p: "0 \<le> Ap ! k" "Ap ! k \<le> Ap ! (k + 1)" "Ap ! (k + 1) \<le> int (length Aj)"
    "Ap ! (k + 1) \<le> int (length Ax)"
    using csr_valid_ptr [OF v, of k "k + 1"] k by auto
  have lenC: "int (length (coalesced Ap Aj Ax k)) \<le> Ap ! k"
    using length_coalesced [OF v, of k] k by simp
  have ptr: "coalesced_ptr n_row Ap Aj Ax k ! (k + 1) = Ap ! (k + 1)"
    using k unfolding coalesced_ptr_def by (simp del: upt_Suc)
  show ?thesis
    unfolding row_entries_def row_span_def ptr
  proof (rule map_cong [OF refl])
    fix jj assume "jj \<in> set (span (Ap ! k) (Ap ! (k + 1)))"
    then have "length (coalesced Ap Aj Ax k) \<le> jj" "jj < length Aj" "jj < length Ax"
      using lenC p by (auto simp: span_def)
    then show "(Aj ! jj, Ax ! jj) =
       (write_at 0 (map fst (coalesced Ap Aj Ax k)) Aj ! jj,
        write_at 0 (map snd (coalesced Ap Aj Ax k)) Ax ! jj)"
      by (simp add: nth_write_at_ge)
  qed
qed

text \<open>
  C9: take a valid matrix, a row \<open>i\<close>, the state \<open>s\<close> at the start of outer iteration \<open>i\<close>
  and any state that the drain loop of row \<open>i\<close> reaches after \<open>n\<close> iterations. There the
  write cursor \<open>nnz\<close> is at most the original \<open>Ap[i+1]\<close>, the read frontier (row \<open>i\<close> has
  been read entirely before its drain loop starts), and strictly below it whenever the
  loop runs another iteration, that is, whenever a write to \<open>Aj[nnz]\<close>, \<open>Ax[nnz]\<close> can
  follow. Every cell at or beyond the read frontier still holds the original entry, and
  the final \<open>Ap[i+1]\<close> is at most the original one.
\<close>

theorem sum_csr_duplicates_cursor_safe:
  fixes Ax :: "'a::comm_monoid_add list"
  assumes v: "csr_valid n_row n_col Ap Aj Ax" and i: "i < n_row"
    and s: "sum_dups_rows i n_col Ap Aj Ax = Some s"
    and it: "drain_iter n (sum_dups_touched i s) = Some (head, nxt, sums, Aj', Ax', nnz)"
  shows "0 \<le> nnz \<and> nnz \<le> Ap ! (i + 1) \<and> (head \<noteq> -2 \<longrightarrow> nnz < Ap ! (i + 1)) \<and>
     (\<forall>m. nat (Ap ! (i + 1)) \<le> m \<longrightarrow> Aj' ! m = Aj ! m \<and> Ax' ! m = Ax ! m) \<and>
     (\<exists>Ap'' Aj'' Ax''. sum_csr_duplicates n_row n_col Ap Aj Ax = Some (Ap'', Aj'', Ax'') \<and>
        Ap'' ! (i + 1) \<le> Ap ! (i + 1))"
proof -
  define C where "C = coalesced Ap Aj Ax i"
  define Aj0 where "Aj0 = write_at 0 (map fst C) Aj"
  define Ax0 where "Ax0 = write_at 0 (map snd C) Ax"
  define es where "es = row_entries Ap Aj Ax i"
  have p: "0 \<le> Ap ! i" "Ap ! i \<le> Ap ! (i + 1)" "Ap ! (i + 1) \<le> int (length Aj)"
    "Ap ! (i + 1) \<le> int (length Ax)"
    using csr_valid_ptr [OF v, of i "i + 1"] i by auto
  have lenC: "int (length C) \<le> Ap ! i"
    using length_coalesced [OF v, of i] i by (simp add: C_def)
  have s_eq: "s = (coalesced_ptr n_row Ap Aj Ax i, Aj0, Ax0, replicate n_col (-1), replicate n_col 0,
      int (length C), Ap ! i)"
    using sum_dups_rows_inv [OF v, of i] i s by (simp add: C_def Aj0_def Ax0_def)
  have es': "es = map (\<lambda>jj. (Aj0 ! jj, Ax0 ! jj)) (span (Ap ! i) (coalesced_ptr n_row Ap Aj Ax i ! (i + 1)))"
    unfolding es_def Aj0_def Ax0_def C_def by (rule row_entries_unread [OF v i])
  have rng: "in_range n_col (map fst es)"
    unfolding es_def by (rule csr_valid_row_range [OF v i])
  obtain nxt0 head0 where
    t: "sum_dups_touched i s = (head0, nxt0, map (\<lambda>c. col_sum es (int c)) [0..<n_col], Aj0, Ax0, int (length C))"
    and inv: "acc_inv n_col (drain_order es) nxt0 head0"
    using sum_dups_touched_clean [OF es' rng, of "int (length C)"] unfolding s_eq by blast
  have ksr: "chain nxt0 head0 (drain_order es)" "distinct (drain_order es)" "in_range n_col (drain_order es)"
    using inv by (auto simp: acc_inv_def)
  have lk: "length (drain_order es) \<le> nat (Ap ! (i + 1)) - nat (Ap ! i)"
    using length_fold_ins [of "map fst es" "[]"]
    by (simp add: drain_order_def es_def length_row_entries)
  have d: "n \<le> length (drain_order es)" "head \<noteq> -2 \<longrightarrow> n < length (drain_order es)"
    "int (length C) \<le> nnz" "nnz \<le> int (length C) + int n"
    "\<forall>m. nat (int (length C)) + length (drain_order es) \<le> m \<longrightarrow> Aj' ! m = Aj0 ! m \<and> Ax' ! m = Ax0 ! m"
    using drain_iter_chain [OF ksr _ it [unfolded t]] by auto
  have c1: "0 \<le> nnz" using d(3) by linarith
  have c2: "nnz \<le> Ap ! (i + 1)" using d(1,4) lk lenC p by linarith
  have c3: "head \<noteq> -2 \<longrightarrow> nnz < Ap ! (i + 1)" using d(2,4) lk lenC p by linarith
  have c4: "Aj' ! m = Aj ! m \<and> Ax' ! m = Ax ! m" if m: "nat (Ap ! (i + 1)) \<le> m" for m
  proof -
    have "nat (int (length C)) + length (drain_order es) \<le> m" using m lk lenC p by linarith
    then have "Aj' ! m = Aj0 ! m \<and> Ax' ! m = Ax0 ! m" using d(5) by blast
    moreover have "length C \<le> m" "length C \<le> length Aj" "length C \<le> length Ax"
      using m lenC p by linarith+
    ultimately show ?thesis by (simp add: Aj0_def Ax0_def nth_write_at_ge)
  qed
  have c5: "coalesced_ptr n_row Ap Aj Ax n_row ! (i + 1) \<le> Ap ! (i + 1)"
    using length_coalesced [OF v, of "i + 1"] i by (simp add: coalesced_ptr_nth)
  show ?thesis
    using c1 c2 c3 c4 c5 sum_csr_duplicates_eq [OF v] by blast
qed

text \<open>The theorem on a matrix with one row, after the first iteration of its drain loop.\<close>

theorem sum_csr_duplicates_cursor_safe_witness:
  "csr_valid 1 2 [0, 2] [0, 1] [1, 1 :: int] \<and> (0::nat) < 1 \<and>
   sum_dups_rows 0 2 [0, 2] [0, 1] [1, 1 :: int] = Some ([0, 2], [0, 1], [1, 1], [-1, -1], [0, 0], 0, 0) \<and>
   drain_iter 1 (sum_dups_touched 0 ([0, 2], [0, 1], [1, 1 :: int], [-1, -1], [0, 0], 0, 0)) =
     Some (0, [-2, -1], [1, 0], [1, 1], [1, 1], 1) \<and>
   (0::int) \<le> 1 \<and> (1::int) \<le> [0, 2] ! (0 + 1) \<and> (1::int) < [0, 2] ! (0 + 1) \<and>
   (\<exists>Ap'' Aj'' Ax''. sum_csr_duplicates 1 2 [0, 2] [0, 1] [1, 1 :: int] = Some (Ap'', Aj'', Ax'') \<and>
      Ap'' ! (0 + 1) \<le> [0, 2] ! (0 + 1))"
proof -
  have v: "csr_valid 1 2 [0, 2] [0, 1] [1, 1 :: int]"
    by (simp add: csr_valid_def)
  have i: "(0::nat) < 1" by simp
  have s: "sum_dups_rows 0 2 [0, 2] [0, 1] [1, 1 :: int] =
      Some ([0, 2], [0, 1], [1, 1], [-1, -1], [0, 0], 0, 0)"
    by code_simp
  have it: "drain_iter 1 (sum_dups_touched 0 ([0, 2], [0, 1], [1, 1 :: int], [-1, -1], [0, 0], 0, 0)) =
     Some (0, [-2, -1], [1, 0], [1, 1], [1, 1], 1)"
    by code_simp
  from sum_csr_duplicates_cursor_safe [OF v i s it] v i s it show ?thesis
    by simp
qed


section \<open>Zero suppression\<close>

lemma mucsr_drain_nonzero:
  "0 \<notin> set Cx \<Longrightarrow> mucsr_drain n (head, nxt, sums, Cj, Cx) = (head', nxt', sums', Cj', Cx') \<Longrightarrow>
   0 \<notin> set Cx'"
proof (induction n arbitrary: head nxt sums Cj Cx)
  case 0
  then show ?case by simp
next
  case (Suc n)
  show ?case
  proof (cases "sums ! nat head = 0")
    case True
    with Suc.prems Suc.IH [of Cx] show ?thesis by simp
  next
    case False
    with Suc.prems Suc.IH [of "Cx @ [sums ! nat head]"] show ?thesis by simp
  qed
qed

lemma mucsr_row_nonzero:
  assumes "0 \<notin> set Cx" "mucsr_row Ap Aj Ax Bp Bj Bx i (Cp, Cj, Cx, nxt, sums) = (Cp', Cj', Cx', nxt', sums')"
  shows "0 \<notin> set Cx'"
  using assms mucsr_drain_nonzero [OF assms(1)]
  by (auto simp: mucsr_row_def Let_def split: prod.splits)

lemma mucsr_rows_Suc:
  "mucsr_rows (Suc k) n_row n_col Ap Aj Ax Bp Bj Bx =
   mucsr_row Ap Aj Ax Bp Bj Bx k (mucsr_rows k n_row n_col Ap Aj Ax Bp Bj Bx)"
  by (simp add: mucsr_rows_def)

lemma mucsr_rows_nonzero:
  "mucsr_rows k n_row n_col Ap Aj Ax Bp Bj Bx = (Cp, Cj, Cx, nxt, sums) \<Longrightarrow> 0 \<notin> set Cx"
proof (induction k arbitrary: Cp Cj Cx nxt sums)
  case 0
  then show ?case by (simp add: mucsr_rows_def)
next
  case (Suc k)
  obtain Cp0 Cj0 Cx0 nxt0 sums0 where
    s: "mucsr_rows k n_row n_col Ap Aj Ax Bp Bj Bx = (Cp0, Cj0, Cx0, nxt0, sums0)"
    by (cases "mucsr_rows k n_row n_col Ap Aj Ax Bp Bj Bx") auto
  from Suc.IH [OF s] Suc.prems show ?case
    using mucsr_row_nonzero [of Cx0 Ap Aj Ax Bp Bj Bx k Cp0 Cj0 nxt0 sums0]
    by (simp add: mucsr_rows_Suc s)
qed

lemma binop_drain_nonzero:
  "0 \<notin> set Cx \<Longrightarrow>
   binop_drain op n (head, nxt, A_row, B_row, Cj, Cx) = (head', nxt', A_row', B_row', Cj', Cx') \<Longrightarrow>
   0 \<notin> set Cx'"
proof (induction n arbitrary: head nxt A_row B_row Cj Cx)
  case 0
  then show ?case by simp
next
  case (Suc n)
  show ?case
  proof (cases "binop_result op A_row B_row head = 0")
    case True
    with Suc.prems Suc.IH [of Cx] show ?thesis by simp
  next
    case False
    with Suc.prems Suc.IH [of "Cx @ [binop_result op A_row B_row head]"] show ?thesis
      by simp
  qed
qed

lemma binop_row_nonzero:
  assumes "0 \<notin> set Cx"
    "binop_row op Ap Aj Ax Bp Bj Bx i (Cp, Cj, Cx, nxt, A_row, B_row) = (Cp', Cj', Cx', nxt', A_row', B_row')"
  shows "0 \<notin> set Cx'"
  using assms binop_drain_nonzero [OF assms(1)]
  by (auto simp: binop_row_def Let_def split: prod.splits)

lemma binop_rows_Suc:
  "binop_rows op (Suc k) n_row n_col Ap Aj Ax Bp Bj Bx =
   binop_row op Ap Aj Ax Bp Bj Bx k (binop_rows op k n_row n_col Ap Aj Ax Bp Bj Bx)"
  by (simp add: binop_rows_def)

lemma binop_rows_nonzero:
  "binop_rows op k n_row n_col Ap Aj Ax Bp Bj Bx = (Cp, Cj, Cx, nxt, A_row, B_row) \<Longrightarrow> 0 \<notin> set Cx"
proof (induction k arbitrary: Cp Cj Cx nxt A_row B_row)
  case 0
  then show ?case by (simp add: binop_rows_def)
next
  case (Suc k)
  obtain Cp0 Cj0 Cx0 nxt0 A0 B0 where
    s: "binop_rows op k n_row n_col Ap Aj Ax Bp Bj Bx = (Cp0, Cj0, Cx0, nxt0, A0, B0)"
    by (cases "binop_rows op k n_row n_col Ap Aj Ax Bp Bj Bx") auto
  from Suc.IH [OF s] Suc.prems show ?case
    using binop_row_nonzero [of Cx0 op Ap Aj Ax Bp Bj Bx k Cp0 Cj0 nxt0 A0 B0]
    by (simp add: binop_rows_Suc s)
qed

lemma sum_csr_duplicates_nonzero:
  fixes Ax :: "'a::comm_monoid_add list"
  assumes v: "csr_valid n_row n_col Ap Aj Ax"
  shows "\<exists>Ap' Aj' Ax'. sum_csr_duplicates n_row n_col Ap Aj Ax = Some (Ap', Aj', Ax') \<and>
           0 \<notin> set (take (nat (Ap' ! n_row)) Ax')"
proof -
  define C where "C = coalesced Ap Aj Ax n_row"
  have "take (length C) (write_at 0 (map snd C) Ax) = map snd C"
    by (simp add: write_at_def)
  moreover have "0 \<notin> set (map snd C)"
    using coalesce_row_nonzero unfolding C_def coalesced_def by fastforce
  ultimately have "0 \<notin> set (take (nat (coalesced_ptr n_row Ap Aj Ax n_row ! n_row))
      (write_at 0 (map snd C) Ax))"
    by (simp add: coalesced_ptr_nth C_def)
  then show ?thesis
    using sum_csr_duplicates_eq [OF v] by (simp add: C_def)
qed

text \<open>
  C4: the value vector returned by \<open>csrmucsr\<close> and the one returned by \<open>csr_binop_csr\<close>
  contain no zero (for any input: a value is appended only after the test \<open>!= 0\<close>), and
  for a valid matrix \<open>sum_csr_duplicates\<close> returns with no zero among the stored values,
  the first \<open>Ap[n_row]\<close> cells of \<open>Ax\<close>, which are the cells it writes back.
\<close>

theorem kernels_store_no_zero:
  fixes Ax :: "'a::semiring_0 list" and Dx :: "'b::comm_monoid_add list"
    and Fx :: "'c::comm_monoid_add list"
  assumes "csr_valid n_row n_col Fp Fj Fx"
  shows "0 \<notin> set (snd (snd (csrmucsr m n Ap Aj Ax Bp Bj Bx))) \<and>
         0 \<notin> set (snd (snd (csr_binop_csr m' n' Dp Dj Dx Ep Ej Ev op))) \<and>
         (\<exists>Fp' Fj' Fx'. sum_csr_duplicates n_row n_col Fp Fj Fx = Some (Fp', Fj', Fx') \<and>
            0 \<notin> set (take (nat (Fp' ! n_row)) Fx'))"
proof (intro conjI)
  show "0 \<notin> set (snd (snd (csrmucsr m n Ap Aj Ax Bp Bj Bx)))"
    using mucsr_rows_nonzero [of m m n Ap Aj Ax Bp Bj Bx]
    by (cases "mucsr_rows m m n Ap Aj Ax Bp Bj Bx") (simp add: csrmucsr_def)
  show "0 \<notin> set (snd (snd (csr_binop_csr m' n' Dp Dj Dx Ep Ej Ev op)))"
    using binop_rows_nonzero [of op m' m' n' Dp Dj Dx Ep Ej Ev]
    by (cases "binop_rows op m' m' n' Dp Dj Dx Ep Ej Ev") (simp add: csr_binop_csr_def)
  show "\<exists>Fp' Fj' Fx'. sum_csr_duplicates n_row n_col Fp Fj Fx = Some (Fp', Fj', Fx') \<and>
            0 \<notin> set (take (nat (Fp' ! n_row)) Fx')"
    using sum_csr_duplicates_nonzero [OF assms] .
qed

text \<open>
  The theorem on a product with a cancelling sum, on \<open>A + B\<close> with a cancelling entry
  and on a row with the duplicate entries 1 and -1 of column 0.
\<close>

theorem kernels_store_no_zero_witness:
  "csr_valid 1 2 [0, 3] [0, 1, 0] [1, 1, -1 :: int] \<and>
   0 \<notin> set (snd (snd (csrmucsr 1 1 [0, 2] [0, 1] [1, 1 :: int] [0, 1, 2] [0, 0] [1, -1]))) \<and>
   0 \<notin> set (snd (snd (csr_binop_csr 1 2 [0, 2] [0, 1] [1, 2 :: int] [0, 1] [0] [-1] (+)))) \<and>
   (\<exists>Fp' Fj' Fx'. sum_csr_duplicates 1 2 [0, 3] [0, 1, 0] [1, 1, -1 :: int] = Some (Fp', Fj', Fx') \<and>
      0 \<notin> set (take (nat (Fp' ! 1)) Fx'))"
proof -
  have v: "csr_valid 1 2 [0, 3] [0, 1, 0] [1, 1, -1 :: int]"
    by (simp add: csr_valid_def)
  from kernels_store_no_zero [OF v, of 1 1 "[0, 2]" "[0, 1]" "[1, 1 :: int]" "[0, 1, 2]" "[0, 0]" "[1, -1]"
      1 2 "[0, 2]" "[0, 1]" "[1, 2 :: int]" "[0, 1]" "[0]" "[-1]" "(+)"] v
  show ?thesis by blast
qed


section \<open>Lemmas: touching and draining in the product and the elementwise combination\<close>

subsection \<open>Touching\<close>

lemma fold_binop_touch:
  "fold (binop_touch Aj Ax) js (row, ls) =
     (fold (\<lambda>e. accum (fst e) (snd e)) (map (\<lambda>jj. (Aj ! jj, Ax ! jj)) js) row,
      fold link (map fst (map (\<lambda>jj. (Aj ! jj, Ax ! jj)) js)) ls)"
proof (induction js arbitrary: row ls)
  case Nil
  then show ?case by simp
next
  case (Cons j js)
  have step: "binop_touch Aj Ax j (row, ls) = (accum (Aj ! j) (Ax ! j) row, link (Aj ! j) ls)"
    by (simp add: binop_touch_def Let_def)
  show ?case by (simp add: step Cons.IH)
qed

lemma fold_accum_link:
  "fold (\<lambda>kk s. case s of (sums, ls) \<Rightarrow> (accum (f kk) (g kk) sums, link (f kk) ls)) ks (sums, ls) =
     (fold (\<lambda>e. accum (fst e) (snd e)) (map (\<lambda>kk. (f kk, g kk)) ks) sums,
      fold link (map fst (map (\<lambda>kk. (f kk, g kk)) ks)) ls)"
  by (induction ks arbitrary: sums ls) simp_all

lemma fold_matmat_touch:
  "fold (matmat_touch Aj Ax Bp Bj Bx) js (sums, ls) =
     (fold (\<lambda>e. accum (fst e) (snd e))
        (concat (map (\<lambda>jj. map (\<lambda>kk. (Bj ! kk, Ax ! jj * Bx ! kk))
                          (span (Bp ! nat (Aj ! jj)) (Bp ! nat (Aj ! jj + 1)))) js)) sums,
      fold link
        (map fst (concat (map (\<lambda>jj. map (\<lambda>kk. (Bj ! kk, Ax ! jj * Bx ! kk))
                          (span (Bp ! nat (Aj ! jj)) (Bp ! nat (Aj ! jj + 1)))) js))) ls)"
proof (induction js arbitrary: sums ls)
  case Nil
  then show ?case by simp
next
  case (Cons j js)
  have step: "matmat_touch Aj Ax Bp Bj Bx j (sums, ls) =
     (fold (\<lambda>e. accum (fst e) (snd e))
        (map (\<lambda>kk. (Bj ! kk, Ax ! j * Bx ! kk)) (span (Bp ! nat (Aj ! j)) (Bp ! nat (Aj ! j + 1)))) sums,
      fold link
        (map fst (map (\<lambda>kk. (Bj ! kk, Ax ! j * Bx ! kk)) (span (Bp ! nat (Aj ! j)) (Bp ! nat (Aj ! j + 1))))) ls)"
    unfolding matmat_touch_def Let_def by (rule fold_accum_link)
  show ?case by (simp add: step Cons.IH)
qed

lemma fold_pass1_touch:
  "fold (pass1_touch Aj Bp Bj) js ls =
     fold link (concat (map (\<lambda>jj. map (\<lambda>kk. Bj ! kk)
                  (span (Bp ! nat (Aj ! jj)) (Bp ! nat (Aj ! jj + 1)))) js)) ls"
proof (induction js arbitrary: ls)
  case Nil
  then show ?case by simp
next
  case (Cons j js)
  have step: "pass1_touch Aj Bp Bj j ls =
     fold link (map (\<lambda>kk. Bj ! kk) (span (Bp ! nat (Aj ! j)) (Bp ! nat (Aj ! j + 1)))) ls"
    by (simp add: pass1_touch_def Let_def fold_map comp_def)
  show ?case by (simp add: step Cons.IH)
qed

lemma fst_prod_entries: "map fst (prod_entries Ap Aj Ax Bp Bj Bx i) = prod_cols Ap Aj Bp Bj i"
  by (simp add: prod_entries_def prod_cols_def map_concat comp_def)

subsection \<open>Draining with a counter\<close>

lemma pass1_drain_chain:
  "chain nxt head ks \<Longrightarrow> distinct ks \<Longrightarrow> in_range n ks \<Longrightarrow>
   pass1_drain (length ks) (nxt, head) = (clear (-1) ks nxt, -2)"
proof (induction ks arbitrary: nxt head)
  case Nil
  then show ?case by (simp add: clear_def)
next
  case (Cons k ks)
  have k: "head = k" "0 \<le> k" "k \<notin> set ks" "distinct ks" "in_range n ks"
    and ch: "chain nxt (nxt ! nat k) ks"
    using Cons.prems by auto
  have ch': "chain (nxt[nat k := -1]) (nxt ! nat k) ks"
    using chain_update [OF ch k(5) k(2) k(3)] .
  show ?case
    using Cons.IH [OF ch' k(4) k(5)] k by (simp add: clear_Cons)
qed

lemma pass2_drain_chain:
  "chain nxt head ks \<Longrightarrow> distinct ks \<Longrightarrow> in_range n ks \<Longrightarrow>
   \<exists>Cj' Cx'. pass2_drain (length ks) (head, nxt, sums, Cj, Cx, nnz) =
     (-2, clear (-1) ks nxt, clear 0 ks sums, Cj', Cx', nnz + int (length (drained ks sums)))"
proof (induction ks arbitrary: nxt head sums Cj Cx nnz)
  case Nil
  then show ?case by (simp add: clear_def drained_def)
next
  case (Cons k ks)
  have k: "head = k" "0 \<le> k" "k \<notin> set ks" "distinct ks" "in_range n ks"
    and ch: "chain nxt (nxt ! nat k) ks"
    using Cons.prems by auto
  have ch': "chain (nxt[nat k := -1]) (nxt ! nat k) ks"
    using chain_update [OF ch k(5) k(2) k(3)] .
  have dr: "drained ks (sums[nat k := 0]) = drained ks sums"
    using drained_update [of n k ks] Cons.prems k by simp
  show ?case
  proof (cases "sums ! nat k = 0")
    case True
    then show ?thesis
      using Cons.IH [OF ch' k(4) k(5), of "sums[nat k := 0]" Cj Cx nnz] k dr
      by (simp add: clear_Cons drained_Cons)
  next
    case False
    obtain Cj' Cx' where eq: "pass2_drain (length ks)
         (nxt ! nat k, nxt[nat k := -1], sums[nat k := 0], Cj[nat nnz := k],
          Cx[nat nnz := sums ! nat k], nnz + 1) =
       (-2, clear (-1) ks (nxt[nat k := -1]), clear 0 ks (sums[nat k := 0]), Cj', Cx',
        nnz + 1 + int (length (drained ks (sums[nat k := 0]))))"
      using Cons.IH [OF ch' k(4) k(5), of "sums[nat k := 0]" "Cj[nat nnz := k]"
          "Cx[nat nnz := sums ! nat k]" "nnz + 1"] by blast
    show ?thesis
      using False k by (simp add: clear_Cons drained_Cons eq dr)
  qed
qed

lemma mucsr_drain_chain:
  "chain nxt head ks \<Longrightarrow> distinct ks \<Longrightarrow> in_range n ks \<Longrightarrow>
   mucsr_drain (length ks) (head, nxt, sums, Cj, Cx) =
     (-2, clear (-1) ks nxt, clear 0 ks sums,
      Cj @ map fst (drained ks sums), Cx @ map snd (drained ks sums))"
proof (induction ks arbitrary: nxt head sums Cj Cx)
  case Nil
  then show ?case by (simp add: clear_def drained_def)
next
  case (Cons k ks)
  have k: "head = k" "0 \<le> k" "k \<notin> set ks" "distinct ks" "in_range n ks"
    and ch: "chain nxt (nxt ! nat k) ks"
    using Cons.prems by auto
  have ch': "chain (nxt[nat k := -1]) (nxt ! nat k) ks"
    using chain_update [OF ch k(5) k(2) k(3)] .
  have dr: "drained ks (sums[nat k := 0]) = drained ks sums"
    using drained_update [of n k ks] Cons.prems k by simp
  show ?case
  proof (cases "sums ! nat k = 0")
    case True
    then show ?thesis
      using Cons.IH [OF ch' k(4) k(5), of "sums[nat k := 0]" Cj Cx] k dr
      by (simp add: clear_Cons drained_Cons)
  next
    case False
    then show ?thesis
      using Cons.IH [OF ch' k(4) k(5), of "sums[nat k := 0]" "Cj @ [k]" "Cx @ [sums ! nat k]"] k dr
      by (simp add: clear_Cons drained_Cons)
  qed
qed

lemma drained2_Cons:
  "drained2 op (k # ks) A_row B_row =
     (if op (A_row ! nat k) (B_row ! nat k) \<noteq> 0
      then (k, op (A_row ! nat k) (B_row ! nat k)) # drained2 op ks A_row B_row
      else drained2 op ks A_row B_row)"
  by (simp add: drained2_def)

lemma drained2_update:
  "in_range n (k # ks) \<Longrightarrow> k \<notin> set ks \<Longrightarrow>
   drained2 op ks (A_row[nat k := v]) (B_row[nat k := w]) = drained2 op ks A_row B_row"
proof -
  assume a: "in_range n (k # ks)" "k \<notin> set ks"
  have "map (\<lambda>c. (c, op (A_row[nat k := v] ! nat c) (B_row[nat k := w] ! nat c))) ks =
        map (\<lambda>c. (c, op (A_row ! nat c) (B_row ! nat c))) ks"
  proof (rule map_cong [OF refl])
    fix c assume "c \<in> set ks"
    with a have "0 \<le> c" "0 \<le> k" "c \<noteq> k" by (auto simp: in_range_iff)
    then have "nat c \<noteq> nat k" by (simp add: eq_nat_nat_iff)
    then show "(c, op (A_row[nat k := v] ! nat c) (B_row[nat k := w] ! nat c)) =
               (c, op (A_row ! nat c) (B_row ! nat c))" by simp
  qed
  then show ?thesis by (simp only: drained2_def)
qed

lemma binop_drain_chain:
  "chain nxt head ks \<Longrightarrow> distinct ks \<Longrightarrow> in_range n ks \<Longrightarrow>
   binop_drain op (length ks) (head, nxt, A_row, B_row, Cj, Cx) =
     (-2, clear (-1) ks nxt, clear 0 ks A_row, clear 0 ks B_row,
      Cj @ map fst (drained2 op ks A_row B_row), Cx @ map snd (drained2 op ks A_row B_row))"
proof (induction ks arbitrary: nxt head A_row B_row Cj Cx)
  case Nil
  then show ?case by (simp add: clear_def drained2_def)
next
  case (Cons k ks)
  have k: "head = k" "0 \<le> k" "k \<notin> set ks" "distinct ks" "in_range n ks"
    and ch: "chain nxt (nxt ! nat k) ks"
    using Cons.prems by auto
  have ch': "chain (nxt[nat k := -1]) (nxt ! nat k) ks"
    using chain_update [OF ch k(5) k(2) k(3)] .
  have dr: "drained2 op ks (A_row[nat k := 0]) (B_row[nat k := 0]) = drained2 op ks A_row B_row"
    using drained2_update [of n k ks] Cons.prems k by simp
  show ?case
  proof (cases "op (A_row ! nat k) (B_row ! nat k) = 0")
    case True
    then show ?thesis
      using Cons.IH [OF ch' k(4) k(5), of "A_row[nat k := 0]" "B_row[nat k := 0]" Cj Cx] k dr
      by (simp add: clear_Cons drained2_Cons binop_result_def)
  next
    case False
    then show ?thesis
      using Cons.IH [OF ch' k(4) k(5), of "A_row[nat k := 0]" "B_row[nat k := 0]" "Cj @ [k]"
          "Cx @ [op (A_row ! nat k) (B_row ! nat k)]"] k dr
      by (simp add: clear_Cons drained2_Cons binop_result_def)
  qed
qed


subsection \<open>Concatenated rows and their pointer array\<close>

lemma rows_cat_0 [simp]: "rows_cat f 0 = []"
  by (simp add: rows_cat_def)

lemma rows_cat_Suc: "rows_cat f (Suc k) = rows_cat f k @ f k"
  by (simp add: rows_cat_def)

lemma rows_cat_prefix: "i \<le> n \<Longrightarrow> \<exists>rest. rows_cat f n = rows_cat f i @ rest"
proof (induction n)
  case 0
  then show ?case by simp
next
  case (Suc n)
  show ?case
  proof (cases "i = Suc n")
    case True
    then show ?thesis by simp
  next
    case False
    with Suc obtain rest where "rows_cat f n = rows_cat f i @ rest" by auto
    then show ?thesis by (simp add: rows_cat_Suc)
  qed
qed

lemma rows_cat_split: "i < n \<Longrightarrow> \<exists>rest. rows_cat f n = rows_cat f i @ f i @ rest"
  using rows_cat_prefix [of "Suc i" n f] by (auto simp: rows_cat_Suc)

lemma length_ptr_upd [simp]: "length (ptr_upd f Cp k) = length Cp"
  by (simp add: ptr_upd_def)

lemma ptr_upd_nth:
  "j < length Cp \<Longrightarrow> ptr_upd f Cp k ! j = (if j \<le> k then int (length (rows_cat f j)) else Cp ! j)"
  by (simp add: ptr_upd_def)

lemma ptr_upd_0: "Cp ! 0 = 0 \<Longrightarrow> ptr_upd f Cp 0 = Cp"
  by (rule nth_equalityI) (auto simp: ptr_upd_nth)

lemma ptr_upd_Suc:
  "(ptr_upd f Cp k)[k + 1 := int (length (rows_cat f (Suc k)))] = ptr_upd f Cp (Suc k)"
proof (rule nth_equalityI)
  show "length ((ptr_upd f Cp k)[k + 1 := int (length (rows_cat f (Suc k)))]) =
        length (ptr_upd f Cp (Suc k))" by simp
next
  fix i assume "i < length ((ptr_upd f Cp k)[k + 1 := int (length (rows_cat f (Suc k)))])"
  then have i: "i < length Cp" by simp
  show "(ptr_upd f Cp k)[k + 1 := int (length (rows_cat f (Suc k)))] ! i = ptr_upd f Cp (Suc k) ! i"
  proof (cases "i = k + 1")
    case True
    then show ?thesis using i by (simp add: ptr_upd_nth)
  next
    case False
    then show ?thesis using i by (auto simp: ptr_upd_nth)
  qed
qed

lemma row_entries_rows_cat:
  assumes "i < n" "n < length Cp"
  shows "row_entries (ptr_upd f Cp n) (map fst (rows_cat f n)) (map snd (rows_cat f n)) i = f i"
proof -
  obtain rest where C: "rows_cat f n = rows_cat f i @ f i @ rest"
    using rows_cat_split [OF assms(1)] by blast
  have sp: "row_span (ptr_upd f Cp n) i =
     [length (rows_cat f i) ..< length (rows_cat f i) + length (f i)]"
    using assms by (simp add: row_span_def span_def ptr_upd_nth rows_cat_Suc nat_int_add)
  have "map (\<lambda>jj. (map fst (rows_cat f n) ! jj, map snd (rows_cat f n) ! jj))
          [length (rows_cat f i) ..< length (rows_cat f i) + length (f i)] =
        map ((!) (rows_cat f n)) [length (rows_cat f i) ..< length (rows_cat f i) + length (f i)]"
  proof (rule map_cong [OF refl])
    fix jj assume "jj \<in> set [length (rows_cat f i) ..< length (rows_cat f i) + length (f i)]"
    then have "jj < length (rows_cat f n)" by (simp add: C)
    then show "(map fst (rows_cat f n) ! jj, map snd (rows_cat f n) ! jj) = rows_cat f n ! jj"
      by simp
  qed
  also have "\<dots> = f i"
    unfolding C by (rule nth_slice)
  finally show ?thesis
    by (simp add: row_entries_def sp)
qed

subsection \<open>Validity of the operands of a product\<close>

lemma span_succ: "0 \<le> j \<Longrightarrow> span (Bp ! nat j) (Bp ! nat (j + 1)) = row_span Bp (nat j)"
  by (simp add: row_span_def nat_add_distrib)

lemma prod_cols_in_range:
  assumes a: "csr_valid n_row n_mid Ap Aj Ax" and b: "csr_valid n_mid n_col Bp Bj Bx"
    and i: "i < n_row"
  shows "in_range n_col (prod_cols Ap Aj Bp Bj i)"
proof -
  have ra: "in_range n_mid (map fst (row_entries Ap Aj Ax i))"
    using csr_valid_row_range [OF a i] .
  have "in_range n_col (map (\<lambda>kk. Bj ! kk) (span (Bp ! nat (Aj ! jj)) (Bp ! nat (Aj ! jj + 1))))"
    if "jj \<in> set (row_span Ap i)" for jj
  proof -
    from ra that have j: "0 \<le> Aj ! jj" "nat (Aj ! jj) < n_mid"
      by (auto simp: in_range_iff row_entries_def)
    have "in_range n_col (map fst (row_entries Bp Bj Bx (nat (Aj ! jj))))"
      using csr_valid_row_range [OF b j(2)] .
    then show ?thesis
      by (simp add: span_succ [OF j(1)] row_entries_def comp_def)
  qed
  then show ?thesis
    by (auto simp: prod_cols_def in_range_iff)
qed


subsection \<open>One row, from an empty accumulator\<close>

lemma touched_clean:
  assumes "in_range n cols"
  shows "\<exists>nxt' head'. fold link cols (replicate n (-1), -2, 0) =
           (nxt', head', int (length (fold ins cols []))) \<and>
         acc_inv n (fold ins cols []) nxt' head'"
  using fold_link_inv [OF acc_inv_empty assms] by simp

lemma clear_sums_sub:
  assumes "fst ` set es \<subseteq> set ks" "in_range n ks"
  shows "clear 0 ks (map (\<lambda>c. col_sum es (int c)) [0..<n]) = replicate n 0"
proof (rule nth_equalityI)
  show "length (clear 0 ks (map (\<lambda>c. col_sum es (int c)) [0..<n])) = length (replicate n 0)"
    by simp
next
  fix c assume "c < length (clear 0 ks (map (\<lambda>c. col_sum es (int c)) [0..<n]))"
  then have c: "c < n" by simp
  have "col_sum es (int c) = 0" if "int c \<notin> set ks"
    using that assms(1) by (intro col_sum_absent) auto
  then show "clear 0 ks (map (\<lambda>c. col_sum es (int c)) [0..<n]) ! c = replicate n 0 ! c"
    using c by (simp add: nth_clear [OF assms(2)])
qed

lemma pass1_row_clean:
  assumes rng: "in_range n_col (prod_cols Ap Aj Bp Bj i)"
  shows "pass1_row Ap Aj Bp Bj i (Cp, replicate n_col (-1)) =
     (Cp[i + 1 := Cp ! i + int (length (fold ins (prod_cols Ap Aj Bp Bj i) []))],
      replicate n_col (-1))"
proof -
  define ks where "ks = fold ins (prod_cols Ap Aj Bp Bj i) []"
  obtain nxt' head' where
    lk: "fold link (prod_cols Ap Aj Bp Bj i) (replicate n_col (-1), -2, 0) = (nxt', head', int (length ks))"
    and inv: "acc_inv n_col ks nxt' head'"
    using touched_clean [OF rng] by (auto simp: ks_def)
  have t: "fold (pass1_touch Aj Bp Bj) (row_span Ap i) (replicate n_col (-1), -2, 0) =
      (nxt', head', int (length ks))"
    using lk by (simp add: fold_pass1_touch prod_cols_def)
  have "pass1_drain (length ks) (nxt', head') = (clear (-1) ks nxt', -2)"
    using inv by (intro pass1_drain_chain [of _ _ _ n_col]) (auto simp: acc_inv_def)
  then have d: "pass1_drain (length ks) (nxt', head') = (replicate n_col (-1), -2)"
    by (simp add: clear_acc_inv [OF inv])
  show ?thesis
    using t d by (simp add: pass1_row_def Let_def ks_def)
qed

lemma matmat_touched_clean:
  fixes Ax :: "'a::semiring_0 list"
  assumes es: "es = prod_entries Ap Aj Ax Bp Bj Bx i" and rng: "in_range n_col (map fst es)"
  shows "\<exists>nxt' head'.
     fold (matmat_touch Aj Ax Bp Bj Bx) (row_span Ap i) (replicate n_col 0, replicate n_col (-1), -2, 0) =
       (map (\<lambda>c. col_sum es (int c)) [0..<n_col], nxt', head', int (length (drain_order es))) \<and>
     acc_inv n_col (drain_order es) nxt' head'"
proof -
  obtain nxt' head' where
    lk: "fold link (map fst es) (replicate n_col (-1), -2, 0) = (nxt', head', int (length (drain_order es)))"
    and inv: "acc_inv n_col (drain_order es) nxt' head'"
    using touched_clean [OF rng] by (auto simp: drain_order_def)
  have sums': "fold (\<lambda>e. accum (fst e) (snd e)) es (replicate n_col (0::'a)) =
      map (\<lambda>c. col_sum es (int c)) [0..<n_col]"
    using fold_accum_clean [OF rng] .
  have "fold (matmat_touch Aj Ax Bp Bj Bx) (row_span Ap i) (replicate n_col 0, replicate n_col (-1), -2, 0) =
       (map (\<lambda>c. col_sum es (int c)) [0..<n_col], nxt', head', int (length (drain_order es)))"
    using lk sums' unfolding es prod_entries_def by (simp only: fold_matmat_touch)
  with inv show ?thesis by blast
qed

lemma drained_coalesce:
  assumes "acc_inv n (drain_order es) nxt head"
  shows "drained (drain_order es) (map (\<lambda>c. col_sum es (int c)) [0..<n]) = coalesce_row es"
  using drained_touched [of n "drain_order es" es] assms
  by (simp add: coalesce_row_def acc_inv_def)

lemma pass2_row_clean:
  fixes Ax :: "'a::semiring_0 list"
  assumes es: "es = prod_entries Ap Aj Ax Bp Bj Bx i" and rng: "in_range n_col (map fst es)"
  shows "\<exists>Cj' Cx'. pass2_row Ap Aj Ax Bp Bj Bx i (Cp, Cj, Cx, replicate n_col (-1), replicate n_col 0, nnz) =
     (Cp[i + 1 := nnz + int (length (coalesce_row es))], Cj', Cx',
      replicate n_col (-1), replicate n_col 0, nnz + int (length (coalesce_row es)))"
proof -
  define ks where "ks = drain_order es"
  define sums' where "sums' = map (\<lambda>c. col_sum es (int c)) [0..<n_col]"
  obtain nxt' head' where
    t: "fold (matmat_touch Aj Ax Bp Bj Bx) (row_span Ap i) (replicate n_col 0, replicate n_col (-1), -2, 0) =
       (sums', nxt', head', int (length ks))"
    and inv: "acc_inv n_col ks nxt' head'"
    using matmat_touched_clean [OF es rng] unfolding ks_def sums'_def by blast
  have ksr: "chain nxt' head' ks" "distinct ks" "in_range n_col ks"
    using inv by (auto simp: acc_inv_def)
  have setks: "set ks = fst ` set es"
    by (simp add: ks_def set_drain_order)
  have dc: "drained ks sums' = coalesce_row es"
    using drained_coalesce [OF inv [unfolded ks_def]] by (simp add: ks_def sums'_def)
  have c1: "clear (-1) ks nxt' = replicate n_col (-1)"
    by (rule clear_acc_inv [OF inv])
  have c2: "clear 0 ks sums' = replicate n_col 0"
    unfolding sums'_def by (rule clear_sums_touched [OF setks ksr(3)])
  obtain Cj' Cx' where
    "pass2_drain (length ks) (head', nxt', sums', Cj, Cx, nnz) =
       (-2, clear (-1) ks nxt', clear 0 ks sums', Cj', Cx', nnz + int (length (drained ks sums')))"
    using pass2_drain_chain [OF ksr] by blast
  then have d: "pass2_drain (length ks) (head', nxt', sums', Cj, Cx, nnz) =
       (-2, replicate n_col (-1), replicate n_col 0, Cj', Cx', nnz + int (length (coalesce_row es)))"
    by (simp add: dc c1 c2)
  show ?thesis
    using t d by (simp add: pass2_row_def Let_def)
qed

lemma mucsr_row_clean:
  fixes Ax :: "'a::semiring_0 list"
  assumes es: "es = prod_entries Ap Aj Ax Bp Bj Bx i" and rng: "in_range n_col (map fst es)"
  shows "mucsr_row Ap Aj Ax Bp Bj Bx i (Cp, Cj, Cx, replicate n_col (-1), replicate n_col 0) =
     (Cp[i + 1 := int (length (Cx @ map snd (coalesce_row es)))],
      Cj @ map fst (coalesce_row es), Cx @ map snd (coalesce_row es),
      replicate n_col (-1), replicate n_col 0)"
proof -
  define ks where "ks = drain_order es"
  define sums' where "sums' = map (\<lambda>c. col_sum es (int c)) [0..<n_col]"
  obtain nxt' head' where
    t: "fold (matmat_touch Aj Ax Bp Bj Bx) (row_span Ap i) (replicate n_col 0, replicate n_col (-1), -2, 0) =
       (sums', nxt', head', int (length ks))"
    and inv: "acc_inv n_col ks nxt' head'"
    using matmat_touched_clean [OF es rng] unfolding ks_def sums'_def by blast
  have ksr: "chain nxt' head' ks" "distinct ks" "in_range n_col ks"
    using inv by (auto simp: acc_inv_def)
  have setks: "set ks = fst ` set es"
    by (simp add: ks_def set_drain_order)
  have dc: "drained ks sums' = coalesce_row es"
    using drained_coalesce [OF inv [unfolded ks_def]] by (simp add: ks_def sums'_def)
  have c1: "clear (-1) ks nxt' = replicate n_col (-1)"
    by (rule clear_acc_inv [OF inv])
  have c2: "clear 0 ks sums' = replicate n_col 0"
    unfolding sums'_def by (rule clear_sums_touched [OF setks ksr(3)])
  have "mucsr_drain (length ks) (head', nxt', sums', Cj, Cx) =
       (-2, clear (-1) ks nxt', clear 0 ks sums',
        Cj @ map fst (drained ks sums'), Cx @ map snd (drained ks sums'))"
    using mucsr_drain_chain [OF ksr] .
  then have d: "mucsr_drain (length ks) (head', nxt', sums', Cj, Cx) =
       (-2, replicate n_col (-1), replicate n_col 0,
        Cj @ map fst (coalesce_row es), Cx @ map snd (coalesce_row es))"
    by (simp add: dc c1 c2)
  show ?thesis
    using t d by (simp add: mucsr_row_def Let_def)
qed

lemma binop_touched_clean:
  fixes Ax :: "'a::comm_monoid_add list"
  assumes ea: "ea = row_entries Ap Aj Ax i" and eb: "eb = row_entries Bp Bj Bx i"
    and ra: "in_range n_col (map fst ea)" and rb: "in_range n_col (map fst eb)"
  shows "\<exists>nxt' head'.
     binop_touched Ap Aj Ax Bp Bj Bx i
       (Cp, Cj, Cx, replicate n_col (-1), replicate n_col 0, replicate n_col 0) =
     (head', nxt', map (\<lambda>c. col_sum ea (int c)) [0..<n_col], map (\<lambda>c. col_sum eb (int c)) [0..<n_col],
      int (length (drain_order (ea @ eb)))) \<and>
     acc_inv n_col (drain_order (ea @ eb)) nxt' head'"
proof -
  define ks where "ks = drain_order (ea @ eb)"
  define A_row where "A_row = map (\<lambda>c. col_sum ea (int c)) [0..<n_col]"
  define B_row where "B_row = map (\<lambda>c. col_sum eb (int c)) [0..<n_col]"
  define ls1 where "ls1 = fold link (map fst ea) (replicate n_col (-1), -2, 0)"
  have rab: "in_range n_col (map fst ea @ map fst eb)" using ra rb by simp
  obtain nxt' head' where
    lk: "fold link (map fst ea @ map fst eb) (replicate n_col (-1), -2, 0) = (nxt', head', int (length ks))"
    and inv: "acc_inv n_col ks nxt' head'"
    using touched_clean [OF rab] by (auto simp: ks_def drain_order_def)
  have lk2: "fold link (map fst eb) ls1 = (nxt', head', int (length ks))"
    using lk by (simp add: ls1_def)
  have t1: "fold (binop_touch Aj Ax) (row_span Ap i) (replicate n_col 0, replicate n_col (-1), -2, 0) =
      (A_row, ls1)"
    using fold_accum_clean [OF ra]
    by (simp add: fold_binop_touch ea row_entries_def A_row_def ls1_def)
  have t2: "fold (binop_touch Bj Bx) (row_span Bp i) (replicate n_col 0, ls1) =
      (B_row, nxt', head', int (length ks))"
    using fold_accum_clean [OF rb] lk2
    by (simp add: fold_binop_touch eb row_entries_def B_row_def)
  obtain a b c where ls1': "ls1 = (a, b, c)" by (cases ls1) auto
  have "binop_touched Ap Aj Ax Bp Bj Bx i
       (Cp, Cj, Cx, replicate n_col (-1), replicate n_col 0, replicate n_col 0) =
     (head', nxt', A_row, B_row, int (length ks))"
    using t1 t2 by (simp add: binop_touched_def Let_def ls1')
  with inv show ?thesis unfolding ks_def A_row_def B_row_def by blast
qed

lemma binop_row_clean:
  fixes Ax :: "'a::comm_monoid_add list"
  assumes ea: "ea = row_entries Ap Aj Ax i" and eb: "eb = row_entries Bp Bj Bx i"
    and ra: "in_range n_col (map fst ea)" and rb: "in_range n_col (map fst eb)"
  shows "binop_row op Ap Aj Ax Bp Bj Bx i
       (Cp, Cj, Cx, replicate n_col (-1), replicate n_col 0, replicate n_col 0) =
     (Cp[i + 1 := int (length (Cx @ map snd (binop_out op ea eb)))],
      Cj @ map fst (binop_out op ea eb), Cx @ map snd (binop_out op ea eb),
      replicate n_col (-1), replicate n_col 0, replicate n_col 0)"
proof -
  define ks where "ks = drain_order (ea @ eb)"
  define A_row where "A_row = map (\<lambda>c. col_sum ea (int c)) [0..<n_col]"
  define B_row where "B_row = map (\<lambda>c. col_sum eb (int c)) [0..<n_col]"
  obtain nxt' head' where
    t: "binop_touched Ap Aj Ax Bp Bj Bx i
       (Cp, Cj, Cx, replicate n_col (-1), replicate n_col 0, replicate n_col 0) =
     (head', nxt', A_row, B_row, int (length ks))"
    and inv: "acc_inv n_col ks nxt' head'"
    using binop_touched_clean [OF ea eb ra rb, of Cp Cj Cx] unfolding ks_def A_row_def B_row_def
    by blast
  have ksr: "chain nxt' head' ks" "distinct ks" "in_range n_col ks"
    using inv by (auto simp: acc_inv_def)
  have setks: "set ks = fst ` set ea \<union> fst ` set eb"
    by (simp add: ks_def set_drain_order image_Un)
  have out: "drained2 op ks A_row B_row = binop_out op ea eb"
  proof -
    have "map (\<lambda>c. (c, op (A_row ! nat c) (B_row ! nat c))) ks =
          map (\<lambda>c. (c, op (col_sum ea c) (col_sum eb c))) ks"
    proof (rule map_cong [OF refl])
      fix c assume "c \<in> set ks"
      with ksr(3) have "0 \<le> c" "nat c < n_col" by (auto simp: in_range_iff)
      then show "(c, op (A_row ! nat c) (B_row ! nat c)) = (c, op (col_sum ea c) (col_sum eb c))"
        by (simp add: A_row_def B_row_def)
    qed
    then show ?thesis by (simp only: drained2_def binop_out_def ks_def)
  qed
  have cl: "clear 0 ks A_row = replicate n_col 0" "clear 0 ks B_row = replicate n_col 0"
    unfolding A_row_def B_row_def using setks ksr(3) by (auto intro!: clear_sums_sub)
  have d: "binop_drain op (length ks) (head', nxt', A_row, B_row, Cj, Cx) =
     (-2, replicate n_col (-1), replicate n_col 0, replicate n_col 0,
      Cj @ map fst (binop_out op ea eb), Cx @ map snd (binop_out op ea eb))"
    using binop_drain_chain [OF ksr, of op A_row B_row Cj Cx]
    by (simp add: clear_acc_inv [OF inv] cl out)
  show ?thesis
    using t d by (simp add: binop_row_def)
qed

subsection \<open>The outer iteration\<close>

lemma prod_entries_in_range:
  assumes "csr_valid n_row n_mid Ap Aj Ax" "csr_valid n_mid n_col Bp Bj Bx" "i < n_row"
  shows "in_range n_col (map fst (prod_entries Ap Aj Ax Bp Bj Bx i))"
  using prod_cols_in_range [OF assms] by (simp add: fst_prod_entries)

lemma mucsr_rows_inv:
  fixes Ax :: "'a::semiring_0 list"
  assumes a: "csr_valid n_row n_mid Ap Aj Ax" and b: "csr_valid n_mid n_col Bp Bj Bx"
  shows "k \<le> n_row \<Longrightarrow> mucsr_rows k n_row n_col Ap Aj Ax Bp Bj Bx =
     (ptr_upd (\<lambda>i. coalesce_row (prod_entries Ap Aj Ax Bp Bj Bx i)) (replicate (n_row + 1) 0) k,
      map fst (rows_cat (\<lambda>i. coalesce_row (prod_entries Ap Aj Ax Bp Bj Bx i)) k),
      map snd (rows_cat (\<lambda>i. coalesce_row (prod_entries Ap Aj Ax Bp Bj Bx i)) k),
      replicate n_col (-1), replicate n_col 0)"
proof (induction k)
  case 0
  show ?case by (simp add: mucsr_rows_def ptr_upd_0)
next
  case (Suc k)
  define f where "f = (\<lambda>i. coalesce_row (prod_entries Ap Aj Ax Bp Bj Bx i))"
  have k: "k < n_row" using Suc.prems by simp
  have rng: "in_range n_col (map fst (prod_entries Ap Aj Ax Bp Bj Bx k))"
    using prod_entries_in_range [OF a b k] .
  have IH: "mucsr_rows k n_row n_col Ap Aj Ax Bp Bj Bx =
     (ptr_upd f (replicate (n_row + 1) 0) k, map fst (rows_cat f k), map snd (rows_cat f k),
      replicate n_col (-1), replicate n_col 0)"
    using Suc.IH k by (simp add: f_def)
  have "mucsr_rows (Suc k) n_row n_col Ap Aj Ax Bp Bj Bx =
     ((ptr_upd f (replicate (n_row + 1) 0) k)[k + 1 := int (length (map snd (rows_cat f k) @ map snd (f k)))],
      map fst (rows_cat f k) @ map fst (f k), map snd (rows_cat f k) @ map snd (f k),
      replicate n_col (-1), replicate n_col 0)"
    unfolding mucsr_rows_Suc IH f_def by (rule mucsr_row_clean [OF refl rng])
  also have "(ptr_upd f (replicate (n_row + 1) 0) k)[k + 1 := int (length (map snd (rows_cat f k) @ map snd (f k)))] =
     ptr_upd f (replicate (n_row + 1) 0) (Suc k)"
    using ptr_upd_Suc [of f "replicate (n_row + 1) 0" k] by (simp add: rows_cat_Suc)
  finally show ?case by (simp add: rows_cat_Suc f_def)
qed

lemma binop_rows_inv:
  fixes Ax :: "'a::comm_monoid_add list"
  assumes a: "csr_valid n_row n_col Ap Aj Ax" and b: "csr_valid n_row n_col Bp Bj Bx"
  shows "k \<le> n_row \<Longrightarrow> binop_rows op k n_row n_col Ap Aj Ax Bp Bj Bx =
     (ptr_upd (\<lambda>i. binop_out op (row_entries Ap Aj Ax i) (row_entries Bp Bj Bx i)) (replicate (n_row + 1) 0) k,
      map fst (rows_cat (\<lambda>i. binop_out op (row_entries Ap Aj Ax i) (row_entries Bp Bj Bx i)) k),
      map snd (rows_cat (\<lambda>i. binop_out op (row_entries Ap Aj Ax i) (row_entries Bp Bj Bx i)) k),
      replicate n_col (-1), replicate n_col 0, replicate n_col 0)"
proof (induction k)
  case 0
  show ?case by (simp add: binop_rows_def ptr_upd_0)
next
  case (Suc k)
  define f where "f = (\<lambda>i. binop_out op (row_entries Ap Aj Ax i) (row_entries Bp Bj Bx i))"
  have k: "k < n_row" using Suc.prems by simp
  have ra: "in_range n_col (map fst (row_entries Ap Aj Ax k))"
    using csr_valid_row_range [OF a k] .
  have rb: "in_range n_col (map fst (row_entries Bp Bj Bx k))"
    using csr_valid_row_range [OF b k] .
  have IH: "binop_rows op k n_row n_col Ap Aj Ax Bp Bj Bx =
     (ptr_upd f (replicate (n_row + 1) 0) k, map fst (rows_cat f k), map snd (rows_cat f k),
      replicate n_col (-1), replicate n_col 0, replicate n_col 0)"
    using Suc.IH k by (simp add: f_def)
  have "binop_rows op (Suc k) n_row n_col Ap Aj Ax Bp Bj Bx =
     ((ptr_upd f (replicate (n_row + 1) 0) k)[k + 1 := int (length (map snd (rows_cat f k) @ map snd (f k)))],
      map fst (rows_cat f k) @ map fst (f k), map snd (rows_cat f k) @ map snd (f k),
      replicate n_col (-1), replicate n_col 0, replicate n_col 0)"
    unfolding binop_rows_Suc IH f_def by (rule binop_row_clean [OF refl refl ra rb])
  also have "(ptr_upd f (replicate (n_row + 1) 0) k)[k + 1 := int (length (map snd (rows_cat f k) @ map snd (f k)))] =
     ptr_upd f (replicate (n_row + 1) 0) (Suc k)"
    using ptr_upd_Suc [of f "replicate (n_row + 1) 0" k] by (simp add: rows_cat_Suc)
  finally show ?case by (simp add: rows_cat_Suc f_def)
qed

text \<open>
  C5: for valid operands, the state of \<open>csrmucsr\<close> at the start of every outer iteration
  \<open>k\<close> (and after the last one) has every cell of \<open>next\<close> equal to \<open>-1\<close> and every cell of
  \<open>sums\<close> equal to 0, and the state of \<open>csr_binop_csr\<close> at the start of every outer
  iteration has every cell of \<open>next\<close> equal to \<open>-1\<close> and every cell of \<open>A_row\<close> and
  \<open>B_row\<close> equal to 0.
\<close>

theorem accumulator_clean_between_rows:
  fixes Ax :: "'a::semiring_0 list" and Dx :: "'b::comm_monoid_add list"
  assumes "csr_valid n_row n_mid Ap Aj Ax" "csr_valid n_mid n_col Bp Bj Bx" "k \<le> n_row"
    and "csr_valid m n Dp Dj Dx" "csr_valid m n Ep Ej Ev" "k' \<le> m"
  shows "(case mucsr_rows k n_row n_col Ap Aj Ax Bp Bj Bx of
            (Cp, Cj, Cx, nxt, sums) \<Rightarrow> nxt = replicate n_col (-1) \<and> sums = replicate n_col 0) \<and>
         (case binop_rows op k' m n Dp Dj Dx Ep Ej Ev of
            (Cp, Cj, Cx, nxt, A_row, B_row) \<Rightarrow>
              nxt = replicate n (-1) \<and> A_row = replicate n 0 \<and> B_row = replicate n 0)"
  using mucsr_rows_inv [OF assms(1,2,3)] binop_rows_inv [OF assms(4,5,6), of op] by simp

text \<open>
  The theorem after the first row of a product whose two contributions to column 0
  cancel, and after the first row of a sum.
\<close>

theorem accumulator_clean_between_rows_witness:
  "csr_valid 1 2 [0, 2] [0, 1] [1, 1 :: int] \<and> csr_valid 2 1 [0, 1, 2] [0, 0] [1, -1 :: int] \<and>
   (1::nat) \<le> 1 \<and>
   csr_valid 1 2 [0, 2] [0, 1] [1, 2 :: int] \<and> csr_valid 1 2 [0, 1] [0] [-1 :: int] \<and>
   (case mucsr_rows 1 1 1 [0, 2] [0, 1] [1, 1 :: int] [0, 1, 2] [0, 0] [1, -1] of
      (Cp, Cj, Cx, nxt, sums) \<Rightarrow> nxt = replicate 1 (-1) \<and> sums = replicate 1 0) \<and>
   (case binop_rows (+) 1 1 2 [0, 2] [0, 1] [1, 2 :: int] [0, 1] [0] [-1] of
      (Cp, Cj, Cx, nxt, A_row, B_row) \<Rightarrow>
        nxt = replicate 2 (-1) \<and> A_row = replicate 2 0 \<and> B_row = replicate 2 0)"
proof -
  have v: "csr_valid 1 2 [0, 2] [0, 1] [1, 1 :: int]" "csr_valid 2 1 [0, 1, 2] [0, 0] [1, -1 :: int]"
    "csr_valid 1 2 [0, 2] [0, 1] [1, 2 :: int]" "csr_valid 1 2 [0, 1] [0] [-1 :: int]"
    by (simp_all add: csr_valid_def)
  have k: "(1::nat) \<le> 1" by simp
  from accumulator_clean_between_rows [OF v(1) v(2) k v(3) v(4) k, of "(+)"] v
  show ?thesis by simp
qed


section \<open>The two passes of the product\<close>

lemma pass1_rows_Suc:
  "pass1_rows (Suc k) n_col Ap Aj Bp Bj Cp =
   pass1_row Ap Aj Bp Bj k (pass1_rows k n_col Ap Aj Bp Bj Cp)"
  by (simp add: pass1_rows_def)

lemma pass2_rows_Suc:
  "pass2_rows (Suc k) n_col Ap Aj Ax Bp Bj Bx Cp Cj Cx =
   pass2_row Ap Aj Ax Bp Bj Bx k (pass2_rows k n_col Ap Aj Ax Bp Bj Bx Cp Cj Cx)"
  by (simp add: pass2_rows_def)

lemma pass1_rows_inv:
  assumes a: "csr_valid n_row n_mid Ap Aj Ax" and b: "csr_valid n_mid n_col Bp Bj Bx"
    and len: "n_row < length Cp"
  shows "k \<le> n_row \<Longrightarrow> pass1_rows k n_col Ap Aj Bp Bj Cp =
     (ptr_upd (\<lambda>i. fold ins (prod_cols Ap Aj Bp Bj i) []) (Cp[0 := 0]) k, replicate n_col (-1))"
proof (induction k)
  case 0
  have "Cp[0 := 0] ! 0 = 0" using len by (cases Cp) auto
  then show ?case by (simp add: pass1_rows_def ptr_upd_0)
next
  case (Suc k)
  define g where "g = (\<lambda>i. fold ins (prod_cols Ap Aj Bp Bj i) [])"
  have k: "k < n_row" using Suc.prems by simp
  have rng: "in_range n_col (prod_cols Ap Aj Bp Bj k)"
    using prod_cols_in_range [OF a b k] .
  have IH: "pass1_rows k n_col Ap Aj Bp Bj Cp = (ptr_upd g (Cp[0 := 0]) k, replicate n_col (-1))"
    using Suc.IH k by (simp add: g_def)
  have pk: "ptr_upd g (Cp[0 := 0]) k ! k = int (length (rows_cat g k))"
    using k len by (simp add: ptr_upd_nth)
  have "pass1_rows (Suc k) n_col Ap Aj Bp Bj Cp =
     ((ptr_upd g (Cp[0 := 0]) k)[k + 1 := ptr_upd g (Cp[0 := 0]) k ! k + int (length (g k))],
      replicate n_col (-1))"
    unfolding pass1_rows_Suc IH g_def by (rule pass1_row_clean [OF rng])
  also have "(ptr_upd g (Cp[0 := 0]) k)[k + 1 := ptr_upd g (Cp[0 := 0]) k ! k + int (length (g k))] =
     ptr_upd g (Cp[0 := 0]) (Suc k)"
    using ptr_upd_Suc [of g "Cp[0 := 0]" k] by (simp add: pk rows_cat_Suc)
  finally show ?case by (simp add: g_def)
qed

lemma pass2_rows_inv:
  fixes Ax :: "'a::semiring_0 list"
  assumes a: "csr_valid n_row n_mid Ap Aj Ax" and b: "csr_valid n_mid n_col Bp Bj Bx"
    and len: "n_row < length Cp"
  shows "k \<le> n_row \<Longrightarrow> \<exists>Cj' Cx'. pass2_rows k n_col Ap Aj Ax Bp Bj Bx Cp Cj Cx =
     (ptr_upd (\<lambda>i. coalesce_row (prod_entries Ap Aj Ax Bp Bj Bx i)) (Cp[0 := 0]) k, Cj', Cx',
      replicate n_col (-1), replicate n_col 0,
      int (length (rows_cat (\<lambda>i. coalesce_row (prod_entries Ap Aj Ax Bp Bj Bx i)) k)))"
proof (induction k)
  case 0
  have "Cp[0 := 0] ! 0 = 0" using len by (cases Cp) auto
  then show ?case by (simp add: pass2_rows_def ptr_upd_0)
next
  case (Suc k)
  define f where "f = (\<lambda>i. coalesce_row (prod_entries Ap Aj Ax Bp Bj Bx i))"
  have k: "k < n_row" using Suc.prems by simp
  have rng: "in_range n_col (map fst (prod_entries Ap Aj Ax Bp Bj Bx k))"
    using prod_entries_in_range [OF a b k] .
  obtain Cj0 Cx0 where IH: "pass2_rows k n_col Ap Aj Ax Bp Bj Bx Cp Cj Cx =
     (ptr_upd f (Cp[0 := 0]) k, Cj0, Cx0, replicate n_col (-1), replicate n_col 0,
      int (length (rows_cat f k)))"
    using Suc.IH k unfolding f_def by auto
  obtain Cj' Cx' where "pass2_row Ap Aj Ax Bp Bj Bx k
       (ptr_upd f (Cp[0 := 0]) k, Cj0, Cx0, replicate n_col (-1), replicate n_col 0,
        int (length (rows_cat f k))) =
     ((ptr_upd f (Cp[0 := 0]) k)[k + 1 := int (length (rows_cat f k)) + int (length (f k))], Cj', Cx',
      replicate n_col (-1), replicate n_col 0, int (length (rows_cat f k)) + int (length (f k)))"
    using pass2_row_clean [OF refl rng] unfolding f_def by blast
  then have "pass2_rows (Suc k) n_col Ap Aj Ax Bp Bj Bx Cp Cj Cx =
     (ptr_upd f (Cp[0 := 0]) (Suc k), Cj', Cx', replicate n_col (-1), replicate n_col 0,
      int (length (rows_cat f (Suc k))))"
    using ptr_upd_Suc [of f "Cp[0 := 0]" k] by (simp add: pass2_rows_Suc IH rows_cat_Suc)
  then show ?case unfolding f_def by blast
qed

lemma ptr_upd_diff:
  assumes "i < n" "n < length Cp"
  shows "ptr_upd f Cp n ! (i + 1) - ptr_upd f Cp n ! i = int (length (f i))"
  using assms by (simp add: ptr_upd_nth rows_cat_Suc)

lemma length_drain_order: "length (drain_order es) = card (fst ` set es)"
  using distinct_card [OF distinct_drain_order, of es] by (simp add: set_drain_order)

lemma length_coalesce_row_card:
  "length (coalesce_row es) = card {c \<in> fst ` set es. col_sum es c \<noteq> 0}"
proof -
  have "length (coalesce_row es) = length (filter (\<lambda>c. col_sum es c \<noteq> 0) (drain_order es))"
    using fst_coalesce_row [of es] by (metis length_map)
  also have "\<dots> = card ({c. col_sum es c \<noteq> 0} \<inter> set (drain_order es))"
    by (rule distinct_length_filter [OF distinct_drain_order])
  also have "{c. col_sum es c \<noteq> 0} \<inter> set (drain_order es) = {c \<in> fst ` set es. col_sum es c \<noteq> 0}"
    by (auto simp: set_drain_order)
  finally show ?thesis .
qed

subsection \<open>What the numeric pass writes\<close>

lemma pass2_drain_write:
  "chain nxt head ks \<Longrightarrow> distinct ks \<Longrightarrow> in_range n ks \<Longrightarrow> 0 \<le> nnz \<Longrightarrow>
   nat nnz + length ks \<le> length Cj \<Longrightarrow> nat nnz + length ks \<le> length Cx \<Longrightarrow>
   pass2_drain (length ks) (head, nxt, sums, Cj, Cx, nnz) =
     (-2, clear (-1) ks nxt, clear 0 ks sums,
      write_at (nat nnz) (map fst (drained ks sums)) Cj,
      write_at (nat nnz) (map snd (drained ks sums)) Cx,
      nnz + int (length (drained ks sums)))"
proof (induction ks arbitrary: nxt head sums Cj Cx nnz)
  case Nil
  then show ?case by (simp add: clear_def drained_def)
next
  case (Cons k ks)
  have k: "head = k" "0 \<le> k" "k \<notin> set ks" "distinct ks" "in_range n ks"
    and ch: "chain nxt (nxt ! nat k) ks"
    using Cons.prems by auto
  have ch': "chain (nxt[nat k := -1]) (nxt ! nat k) ks"
    using chain_update [OF ch k(5) k(2) k(3)] .
  have dr: "drained ks (sums[nat k := 0]) = drained ks sums"
    using drained_update [of n k ks] Cons.prems k by simp
  show ?case
  proof (cases "sums ! nat k = 0")
    case True
    have "pass2_drain (length ks) (nxt ! nat k, nxt[nat k := -1], sums[nat k := 0], Cj, Cx, nnz) =
       (-2, clear (-1) ks (nxt[nat k := -1]), clear 0 ks (sums[nat k := 0]),
        write_at (nat nnz) (map fst (drained ks sums)) Cj,
        write_at (nat nnz) (map snd (drained ks sums)) Cx,
        nnz + int (length (drained ks sums)))"
      using Cons.IH [OF ch' k(4) k(5), of nnz Cj Cx "sums[nat k := 0]"] Cons.prems dr by simp
    then show ?thesis
      using True k by (simp add: clear_Cons drained_Cons)
  next
    case False
    have n1: "nat (nnz + 1) = Suc (nat nnz)" using Cons.prems by simp
    have lt: "nat nnz < length Cj" "nat nnz < length Cx" using Cons.prems by auto
    have "pass2_drain (length ks)
         (nxt ! nat k, nxt[nat k := -1], sums[nat k := 0], Cj[nat nnz := k],
          Cx[nat nnz := sums ! nat k], nnz + 1) =
       (-2, clear (-1) ks (nxt[nat k := -1]), clear 0 ks (sums[nat k := 0]),
        write_at (nat (nnz + 1)) (map fst (drained ks sums)) (Cj[nat nnz := k]),
        write_at (nat (nnz + 1)) (map snd (drained ks sums)) (Cx[nat nnz := sums ! nat k]),
        nnz + 1 + int (length (drained ks sums)))"
      using Cons.IH [OF ch' k(4) k(5), of "nnz + 1" "Cj[nat nnz := k]" "Cx[nat nnz := sums ! nat k]"
          "sums[nat k := 0]"] Cons.prems dr n1 by simp
    then show ?thesis
      using False k lt by (simp add: clear_Cons drained_Cons n1 write_at_update)
  qed
qed

lemma pass2_row_write:
  fixes Ax :: "'a::semiring_0 list"
  assumes es: "es = prod_entries Ap Aj Ax Bp Bj Bx i" and rng: "in_range n_col (map fst es)"
    and nn: "0 \<le> nnz"
    and room: "nat nnz + length (drain_order es) \<le> length Cj"
      "nat nnz + length (drain_order es) \<le> length Cx"
  shows "pass2_row Ap Aj Ax Bp Bj Bx i (Cp, Cj, Cx, replicate n_col (-1), replicate n_col 0, nnz) =
     (Cp[i + 1 := nnz + int (length (coalesce_row es))],
      write_at (nat nnz) (map fst (coalesce_row es)) Cj,
      write_at (nat nnz) (map snd (coalesce_row es)) Cx,
      replicate n_col (-1), replicate n_col 0, nnz + int (length (coalesce_row es)))"
proof -
  define ks where "ks = drain_order es"
  define sums' where "sums' = map (\<lambda>c. col_sum es (int c)) [0..<n_col]"
  obtain nxt' head' where
    t: "fold (matmat_touch Aj Ax Bp Bj Bx) (row_span Ap i) (replicate n_col 0, replicate n_col (-1), -2, 0) =
       (sums', nxt', head', int (length ks))"
    and inv: "acc_inv n_col ks nxt' head'"
    using matmat_touched_clean [OF es rng] unfolding ks_def sums'_def by blast
  have ksr: "chain nxt' head' ks" "distinct ks" "in_range n_col ks"
    using inv by (auto simp: acc_inv_def)
  have setks: "set ks = fst ` set es"
    by (simp add: ks_def set_drain_order)
  have dc: "drained ks sums' = coalesce_row es"
    using drained_coalesce [OF inv [unfolded ks_def]] by (simp add: ks_def sums'_def)
  have c1: "clear (-1) ks nxt' = replicate n_col (-1)"
    by (rule clear_acc_inv [OF inv])
  have c2: "clear 0 ks sums' = replicate n_col 0"
    unfolding sums'_def by (rule clear_sums_touched [OF setks ksr(3)])
  have rm: "nat nnz + length ks \<le> length Cj" "nat nnz + length ks \<le> length Cx"
    using room by (simp_all add: ks_def)
  have d: "pass2_drain (length ks) (head', nxt', sums', Cj, Cx, nnz) =
       (-2, replicate n_col (-1), replicate n_col 0,
        write_at (nat nnz) (map fst (coalesce_row es)) Cj,
        write_at (nat nnz) (map snd (coalesce_row es)) Cx,
        nnz + int (length (coalesce_row es)))"
    using pass2_drain_write [OF ksr nn rm, of sums'] by (simp add: dc c1 c2)
  show ?thesis
    using t d by (simp add: pass2_row_def Let_def)
qed

lemma length_rows_cat_mono: "i \<le> n \<Longrightarrow> length (rows_cat f i) \<le> length (rows_cat f n)"
  using rows_cat_prefix [of i n f] by auto

lemma length_rows_cat_le:
  "(\<And>i. i < k \<Longrightarrow> length (f i) \<le> length (g i)) \<Longrightarrow>
   length (rows_cat f k) \<le> length (rows_cat g k)"
proof (induction k)
  case 0
  then show ?case by simp
next
  case (Suc k)
  have "length (rows_cat f k) \<le> length (rows_cat g k)" using Suc by simp
  moreover have "length (f k) \<le> length (g k)" using Suc.prems [of k] by simp
  ultimately show ?case by (simp add: rows_cat_Suc)
qed

lemma length_coalesce_row_order: "length (coalesce_row es) \<le> length (drain_order es)"
  by (simp add: coalesce_row_def)

lemma pass2_rows_write:
  fixes Ax :: "'a::semiring_0 list"
  assumes a: "csr_valid n_row n_mid Ap Aj Ax" and b: "csr_valid n_mid n_col Bp Bj Bx"
    and len: "n_row < length Cp"
    and buf: "length (rows_cat (\<lambda>i. drain_order (prod_entries Ap Aj Ax Bp Bj Bx i)) n_row) \<le> length Cj"
      "length (rows_cat (\<lambda>i. drain_order (prod_entries Ap Aj Ax Bp Bj Bx i)) n_row) \<le> length Cx"
  shows "k \<le> n_row \<Longrightarrow> pass2_rows k n_col Ap Aj Ax Bp Bj Bx Cp Cj Cx =
     (ptr_upd (\<lambda>i. coalesce_row (prod_entries Ap Aj Ax Bp Bj Bx i)) (Cp[0 := 0]) k,
      write_at 0 (map fst (rows_cat (\<lambda>i. coalesce_row (prod_entries Ap Aj Ax Bp Bj Bx i)) k)) Cj,
      write_at 0 (map snd (rows_cat (\<lambda>i. coalesce_row (prod_entries Ap Aj Ax Bp Bj Bx i)) k)) Cx,
      replicate n_col (-1), replicate n_col 0,
      int (length (rows_cat (\<lambda>i. coalesce_row (prod_entries Ap Aj Ax Bp Bj Bx i)) k)))"
proof (induction k)
  case 0
  have "Cp[0 := 0] ! 0 = 0" using len by (cases Cp) auto
  then show ?case by (simp add: pass2_rows_def ptr_upd_0)
next
  case (Suc k)
  define f where "f = (\<lambda>i. coalesce_row (prod_entries Ap Aj Ax Bp Bj Bx i))"
  define g where "g = (\<lambda>i. drain_order (prod_entries Ap Aj Ax Bp Bj Bx i))"
  define C where "C = rows_cat f k"
  define Cj' where "Cj' = write_at 0 (map fst C) Cj"
  define Cx' where "Cx' = write_at 0 (map snd C) Cx"
  have k: "k < n_row" using Suc.prems by simp
  have rng: "in_range n_col (map fst (prod_entries Ap Aj Ax Bp Bj Bx k))"
    using prod_entries_in_range [OF a b k] .
  have fg: "length (f i) \<le> length (g i)" for i
    unfolding f_def g_def by (rule length_coalesce_row_order)
  have "length C + length (g k) \<le> length (rows_cat g k) + length (g k)"
    unfolding C_def using length_rows_cat_le [of k f g] fg by simp
  also have "\<dots> = length (rows_cat g (Suc k))" by (simp add: rows_cat_Suc)
  also have "\<dots> \<le> length (rows_cat g n_row)"
    using k by (intro length_rows_cat_mono) simp
  finally have tot: "length C + length (g k) \<le> length (rows_cat g n_row)" .
  have room: "length C + length (g k) \<le> length Cj" "length C + length (g k) \<le> length Cx"
    using tot buf unfolding g_def by linarith+
  have lens: "length Cj' = length Cj" "length Cx' = length Cx"
    using room by (simp_all add: Cj'_def Cx'_def)
  have IH: "pass2_rows k n_col Ap Aj Ax Bp Bj Bx Cp Cj Cx =
     (ptr_upd f (Cp[0 := 0]) k, Cj', Cx', replicate n_col (-1), replicate n_col 0, int (length C))"
    using Suc.IH k by (simp add: f_def C_def Cj'_def Cx'_def)
  have row: "pass2_row Ap Aj Ax Bp Bj Bx k
       (ptr_upd f (Cp[0 := 0]) k, Cj', Cx', replicate n_col (-1), replicate n_col 0, int (length C)) =
     ((ptr_upd f (Cp[0 := 0]) k)[k + 1 := int (length C) + int (length (f k))],
      write_at (nat (int (length C))) (map fst (f k)) Cj',
      write_at (nat (int (length C))) (map snd (f k)) Cx',
      replicate n_col (-1), replicate n_col 0, int (length C) + int (length (f k)))"
    unfolding f_def
    by (rule pass2_row_write [OF refl rng]) (use room lens in \<open>simp_all add: g_def\<close>)
  have rm: "length C + length (f k) \<le> length Cj" "length C + length (f k) \<le> length Cx"
    using room fg [of k] by linarith+
  have w1: "write_at (nat (int (length C))) (map fst (f k)) Cj' = write_at 0 (map fst (C @ f k)) Cj"
    using write_at_write_at [of "map fst C" "map fst (f k)" Cj] rm by (simp add: Cj'_def)
  have w2: "write_at (nat (int (length C))) (map snd (f k)) Cx' = write_at 0 (map snd (C @ f k)) Cx"
    using write_at_write_at [of "map snd C" "map snd (f k)" Cx] rm by (simp add: Cx'_def)
  have w3: "(ptr_upd f (Cp[0 := 0]) k)[k + 1 := int (length C) + int (length (f k))] =
      ptr_upd f (Cp[0 := 0]) (Suc k)"
    using ptr_upd_Suc [of f "Cp[0 := 0]" k] by (simp add: rows_cat_Suc C_def)
  have CS: "rows_cat f (Suc k) = C @ f k" by (simp add: rows_cat_Suc C_def)
  have "pass2_rows (Suc k) n_col Ap Aj Ax Bp Bj Bx Cp Cj Cx =
     (ptr_upd f (Cp[0 := 0]) (Suc k), write_at 0 (map fst (C @ f k)) Cj,
      write_at 0 (map snd (C @ f k)) Cx, replicate n_col (-1), replicate n_col 0,
      int (length C) + int (length (f k)))"
    by (simp only: pass2_rows_Suc IH row w1 w2 w3)
  then show ?case
    unfolding f_def [symmetric] CS by simp
qed

lemma row_entries_written:
  assumes i: "i < n" and n: "n < length Cp"
    and room: "length (rows_cat f n) \<le> length Cj" "length (rows_cat f n) \<le> length Cx"
  shows "row_entries (ptr_upd f Cp n) (write_at 0 (map fst (rows_cat f n)) Cj)
           (write_at 0 (map snd (rows_cat f n)) Cx) i = f i"
proof -
  obtain rest where C: "rows_cat f n = rows_cat f i @ f i @ rest"
    using rows_cat_split [OF i] by blast
  have sp: "row_span (ptr_upd f Cp n) i =
     [length (rows_cat f i) ..< length (rows_cat f i) + length (f i)]"
    using i n by (simp add: row_span_def span_def ptr_upd_nth rows_cat_Suc nat_int_add)
  have "map (\<lambda>jj. (write_at 0 (map fst (rows_cat f n)) Cj ! jj, write_at 0 (map snd (rows_cat f n)) Cx ! jj))
          [length (rows_cat f i) ..< length (rows_cat f i) + length (f i)] =
        map ((!) (rows_cat f n)) [length (rows_cat f i) ..< length (rows_cat f i) + length (f i)]"
  proof (rule map_cong [OF refl])
    fix jj assume "jj \<in> set [length (rows_cat f i) ..< length (rows_cat f i) + length (f i)]"
    then have "jj < length (rows_cat f n)" by (simp add: C)
    then show "(write_at 0 (map fst (rows_cat f n)) Cj ! jj, write_at 0 (map snd (rows_cat f n)) Cx ! jj) =
        rows_cat f n ! jj"
      by (simp add: write_at_def nth_append)
  qed
  also have "\<dots> = f i"
    unfolding C by (rule nth_slice)
  finally show ?thesis
    by (simp add: row_entries_def sp)
qed

text \<open>
  C3 (amended): for valid operands and every row \<open>i\<close>, the count \<open>Cp[i+1] - Cp[i]\<close> of the
  symbolic pass \<open>csr_matmat_pass1\<close> is the number of distinct columns the row touches, and
  the count \<open>Cp[i+1] - Cp[i]\<close> the numeric pass \<open>csr_matmat_pass2\<close> stores is the number of
  those columns whose accumulated sum is not zero. So the numeric count is at most the
  symbolic one; the two are equal when no accumulated sum of the row is zero.

  When the output arrays \<open>Cj\<close> and \<open>Cx\<close> have at least as many cells as the symbolic pass
  counts in total (\<open>Cp1[n_row]\<close>), the numeric count is the number of entries the numeric
  pass writes for the row: the cells \<open>Cp2[i], \<dots>, Cp2[i+1] - 1\<close> of \<open>Cj2\<close> and \<open>Cx2\<close> hold,
  from the column touched last to the column touched first, the columns of the row whose
  accumulated sum is not zero, each once and each with its sum; the numeric pass writes at
  most \<open>Cp1[n_row]\<close> cells in all, and every cell from \<open>Cp2[n_row]\<close> on keeps its content.
\<close>

theorem matmat_pass_counts:
  fixes Ax :: "'a::semiring_0 list"
  assumes a: "csr_valid n_row n_mid Ap Aj Ax" and b: "csr_valid n_mid n_col Bp Bj Bx"
    and len: "length Cp = n_row + 1" "length Cp' = n_row + 1" and i: "i < n_row"
    and p1: "csr_matmat_pass1 n_row n_col Ap Aj Bp Bj Cp = Cp1"
    and p2: "csr_matmat_pass2 n_row n_col Ap Aj Ax Bp Bj Bx Cp' Cj Cx = (Cp2, Cj2, Cx2)"
  shows "Cp1 ! (i + 1) - Cp1 ! i = int (card (set (prod_cols Ap Aj Bp Bj i))) \<and>
     Cp2 ! (i + 1) - Cp2 ! i =
       int (card {c \<in> set (prod_cols Ap Aj Bp Bj i). col_sum (prod_entries Ap Aj Ax Bp Bj Bx i) c \<noteq> 0}) \<and>
     Cp2 ! (i + 1) - Cp2 ! i \<le> Cp1 ! (i + 1) - Cp1 ! i \<and>
     ((\<forall>c\<in>set (prod_cols Ap Aj Bp Bj i). col_sum (prod_entries Ap Aj Ax Bp Bj Bx i) c \<noteq> 0) \<longrightarrow>
        Cp2 ! (i + 1) - Cp2 ! i = Cp1 ! (i + 1) - Cp1 ! i) \<and>
     (Cp1 ! n_row \<le> int (length Cj) \<and> Cp1 ! n_row \<le> int (length Cx) \<longrightarrow>
        map (\<lambda>jj. (Cj2 ! jj, Cx2 ! jj)) [nat (Cp2 ! i) ..< nat (Cp2 ! (i + 1))] =
          coalesce_row (prod_entries Ap Aj Ax Bp Bj Bx i) \<and>
        distinct (map (\<lambda>jj. Cj2 ! jj) [nat (Cp2 ! i) ..< nat (Cp2 ! (i + 1))]) \<and>
        (\<forall>jj. Cp2 ! i \<le> int jj \<and> int jj < Cp2 ! (i + 1) \<longrightarrow>
           Cj2 ! jj \<in> set (prod_cols Ap Aj Bp Bj i) \<and>
           Cx2 ! jj = col_sum (prod_entries Ap Aj Ax Bp Bj Bx i) (Cj2 ! jj) \<and> Cx2 ! jj \<noteq> 0) \<and>
        (\<forall>c\<in>set (prod_cols Ap Aj Bp Bj i). col_sum (prod_entries Ap Aj Ax Bp Bj Bx i) c \<noteq> 0 \<longrightarrow>
           (\<exists>jj. Cp2 ! i \<le> int jj \<and> int jj < Cp2 ! (i + 1) \<and> Cj2 ! jj = c)) \<and>
        Cp2 ! n_row \<le> Cp1 ! n_row \<and> length Cj2 = length Cj \<and> length Cx2 = length Cx \<and>
        (\<forall>m\<ge>nat (Cp2 ! n_row). Cj2 ! m = Cj ! m \<and> Cx2 ! m = Cx ! m))"
proof -
  define es where "es = prod_entries Ap Aj Ax Bp Bj Bx i"
  define f where "f = (\<lambda>i. coalesce_row (prod_entries Ap Aj Ax Bp Bj Bx i))"
  define g where "g = (\<lambda>i. drain_order (prod_entries Ap Aj Ax Bp Bj Bx i))"
  have cols: "fst ` set es = set (prod_cols Ap Aj Bp Bj i)"
    using fst_prod_entries [of Ap Aj Ax Bp Bj Bx i] unfolding es_def by (metis set_map)
  have l: "n_row < length Cp" "n_row < length Cp'" using len by auto
  have l0: "n_row < length (Cp[0 := 0])" "n_row < length (Cp'[0 := 0])" using len by auto
  have gi: "(\<lambda>i. fold ins (prod_cols Ap Aj Bp Bj i) []) = g"
    by (rule ext) (simp add: g_def drain_order_def fst_prod_entries)
  have P1: "Cp1 = ptr_upd g (Cp[0 := 0]) n_row"
    using pass1_rows_inv [OF a b l(1), of n_row] p1 by (simp add: csr_matmat_pass1_def gi)
  then have "Cp1 ! (i + 1) - Cp1 ! i = int (length (g i))"
    using ptr_upd_diff [OF i l0(1)] by simp
  then have c1: "Cp1 ! (i + 1) - Cp1 ! i = int (card (set (prod_cols Ap Aj Bp Bj i)))"
    by (simp add: g_def es_def [symmetric] length_drain_order cols)
  have P2: "Cp2 = ptr_upd f (Cp'[0 := 0]) n_row"
    using pass2_rows_inv [OF a b l(2), of n_row Cj Cx] p2 by (auto simp: csr_matmat_pass2_def f_def)
  then have "Cp2 ! (i + 1) - Cp2 ! i = int (length (coalesce_row es))"
    using ptr_upd_diff [OF i l0(2)] by (simp add: es_def f_def)
  then have c2: "Cp2 ! (i + 1) - Cp2 ! i =
      int (card {c \<in> set (prod_cols Ap Aj Bp Bj i). col_sum es c \<noteq> 0})"
    by (simp add: length_coalesce_row_card cols)
  have sub: "{c \<in> set (prod_cols Ap Aj Bp Bj i). col_sum es c \<noteq> 0} \<subseteq> set (prod_cols Ap Aj Bp Bj i)"
    by auto
  have c3: "card {c \<in> set (prod_cols Ap Aj Bp Bj i). col_sum es c \<noteq> 0} \<le> card (set (prod_cols Ap Aj Bp Bj i))"
    by (rule card_mono [OF _ sub]) simp
  have c4: "{c \<in> set (prod_cols Ap Aj Bp Bj i). col_sum es c \<noteq> 0} = set (prod_cols Ap Aj Bp Bj i)"
    if "\<forall>c\<in>set (prod_cols Ap Aj Bp Bj i). col_sum es c \<noteq> 0"
    using that by auto
  have counts: "Cp1 ! (i + 1) - Cp1 ! i = int (card (set (prod_cols Ap Aj Bp Bj i))) \<and>
     Cp2 ! (i + 1) - Cp2 ! i =
       int (card {c \<in> set (prod_cols Ap Aj Bp Bj i). col_sum (prod_entries Ap Aj Ax Bp Bj Bx i) c \<noteq> 0}) \<and>
     Cp2 ! (i + 1) - Cp2 ! i \<le> Cp1 ! (i + 1) - Cp1 ! i \<and>
     ((\<forall>c\<in>set (prod_cols Ap Aj Bp Bj i). col_sum (prod_entries Ap Aj Ax Bp Bj Bx i) c \<noteq> 0) \<longrightarrow>
        Cp2 ! (i + 1) - Cp2 ! i = Cp1 ! (i + 1) - Cp1 ! i)"
    using c1 c2 c3 c4 unfolding es_def by auto
  have content: "map (\<lambda>jj. (Cj2 ! jj, Cx2 ! jj)) [nat (Cp2 ! i) ..< nat (Cp2 ! (i + 1))] =
          coalesce_row (prod_entries Ap Aj Ax Bp Bj Bx i) \<and>
        distinct (map (\<lambda>jj. Cj2 ! jj) [nat (Cp2 ! i) ..< nat (Cp2 ! (i + 1))]) \<and>
        (\<forall>jj. Cp2 ! i \<le> int jj \<and> int jj < Cp2 ! (i + 1) \<longrightarrow>
           Cj2 ! jj \<in> set (prod_cols Ap Aj Bp Bj i) \<and>
           Cx2 ! jj = col_sum (prod_entries Ap Aj Ax Bp Bj Bx i) (Cj2 ! jj) \<and> Cx2 ! jj \<noteq> 0) \<and>
        (\<forall>c\<in>set (prod_cols Ap Aj Bp Bj i). col_sum (prod_entries Ap Aj Ax Bp Bj Bx i) c \<noteq> 0 \<longrightarrow>
           (\<exists>jj. Cp2 ! i \<le> int jj \<and> int jj < Cp2 ! (i + 1) \<and> Cj2 ! jj = c)) \<and>
        Cp2 ! n_row \<le> Cp1 ! n_row \<and> length Cj2 = length Cj \<and> length Cx2 = length Cx \<and>
        (\<forall>m\<ge>nat (Cp2 ! n_row). Cj2 ! m = Cj ! m \<and> Cx2 ! m = Cx ! m)"
    if buf: "Cp1 ! n_row \<le> int (length Cj)" "Cp1 ! n_row \<le> int (length Cx)"
  proof -
    have t1: "Cp1 ! n_row = int (length (rows_cat g n_row))"
      using l0(1) by (simp add: P1 ptr_upd_nth)
    have t2: "Cp2 ! n_row = int (length (rows_cat f n_row))"
      using l0(2) by (simp add: P2 ptr_upd_nth)
    have fg: "length (rows_cat f n_row) \<le> length (rows_cat g n_row)"
      by (rule length_rows_cat_le) (simp add: f_def g_def length_coalesce_row_order)
    have bg: "length (rows_cat g n_row) \<le> length Cj" "length (rows_cat g n_row) \<le> length Cx"
      using buf t1 by simp_all
    have room: "length (rows_cat f n_row) \<le> length Cj" "length (rows_cat f n_row) \<le> length Cx"
      using fg bg by linarith+
    have W: "Cj2 = write_at 0 (map fst (rows_cat f n_row)) Cj"
      "Cx2 = write_at 0 (map snd (rows_cat f n_row)) Cx"
      using pass2_rows_write [OF a b l(2) bg [unfolded g_def], of n_row] p2
      by (simp_all add: csr_matmat_pass2_def f_def)
    have "row_entries Cp2 Cj2 Cx2 i = f i"
      unfolding P2 W by (rule row_entries_written [OF i l0(2) room])
    then have sl: "map (\<lambda>jj. (Cj2 ! jj, Cx2 ! jj)) [nat (Cp2 ! i) ..< nat (Cp2 ! (i + 1))] = coalesce_row es"
      by (simp add: row_entries_def row_span_def span_def f_def es_def)
    have "map (\<lambda>jj. Cj2 ! jj) [nat (Cp2 ! i) ..< nat (Cp2 ! (i + 1))] = map fst (coalesce_row es)"
      using arg_cong [OF sl, of "map fst"] by (simp add: comp_def)
    then have d: "distinct (map (\<lambda>jj. Cj2 ! jj) [nat (Cp2 ! i) ..< nat (Cp2 ! (i + 1))])"
      by (simp add: fst_coalesce_row distinct_drain_order)
    have mem: "(Cj2 ! jj, Cx2 ! jj) \<in> set (coalesce_row es)"
      if "Cp2 ! i \<le> int jj" "int jj < Cp2 ! (i + 1)" for jj
    proof -
      have "jj \<in> set [nat (Cp2 ! i) ..< nat (Cp2 ! (i + 1))]" using that by auto
      then have "(Cj2 ! jj, Cx2 ! jj) \<in> set (map (\<lambda>jj. (Cj2 ! jj, Cx2 ! jj)) [nat (Cp2 ! i) ..< nat (Cp2 ! (i + 1))])"
        unfolding set_map by (rule imageI)
      then show ?thesis by (simp only: sl)
    qed
    have e1: "Cj2 ! jj \<in> set (prod_cols Ap Aj Bp Bj i) \<and> Cx2 ! jj = col_sum es (Cj2 ! jj) \<and> Cx2 ! jj \<noteq> 0"
      if "Cp2 ! i \<le> int jj" "int jj < Cp2 ! (i + 1)" for jj
      using mem [OF that] by (auto simp: coalesce_row_def set_drain_order cols)
    have e2: "\<exists>jj. Cp2 ! i \<le> int jj \<and> int jj < Cp2 ! (i + 1) \<and> Cj2 ! jj = c"
      if c: "c \<in> set (prod_cols Ap Aj Bp Bj i)" "col_sum es c \<noteq> 0" for c
    proof -
      have "(c, col_sum es c) \<in> set (coalesce_row es)"
        using c by (auto simp: coalesce_row_def set_drain_order cols)
      then have "(c, col_sum es c) \<in> set (map (\<lambda>jj. (Cj2 ! jj, Cx2 ! jj)) [nat (Cp2 ! i) ..< nat (Cp2 ! (i + 1))])"
        by (simp only: sl)
      then obtain jj where "nat (Cp2 ! i) \<le> jj" "jj < nat (Cp2 ! (i + 1))" "Cj2 ! jj = c"
        by auto
      then show ?thesis by (intro exI [of _ jj]) auto
    qed
    have tot: "Cp2 ! n_row \<le> Cp1 ! n_row" using fg by (simp add: t1 t2)
    have ln: "length Cj2 = length Cj" "length Cx2 = length Cx"
      using room by (simp_all add: W length_write_at)
    have fr: "Cj2 ! m = Cj ! m \<and> Cx2 ! m = Cx ! m" if "nat (Cp2 ! n_row) \<le> m" for m
      using that room by (simp add: W t2 nth_write_at_ge)
    show ?thesis
      using sl d e1 e2 tot ln fr unfolding es_def by blast
  qed
  show ?thesis
    using counts content by blast
qed

text \<open>
  The theorem on the product of the rows (1, 1) and (0, 2) with the rows (1, 3) and
  (-1, 4): in row 0 the sum of column 0 cancels and the numeric pass writes column 1
  alone, of two columns counted; in row 1 it writes both columns counted, column 1
  before column 0. The fourth cell of the output arrays stays as it was.
\<close>

theorem matmat_pass_counts_witness:
  "csr_valid 2 2 [0, 2, 3] [0, 1, 1] [1, 1, 2 :: int] \<and>
   csr_valid 2 2 [0, 2, 4] [0, 1, 0, 1] [1, 3, -1, 4 :: int] \<and>
   length [5, 5, 5 :: int] = 2 + 1 \<and> (1::nat) < 2 \<and>
   csr_matmat_pass1 2 2 [0, 2, 3] [0, 1, 1] [0, 2, 4] [0, 1, 0, 1] [5, 5, 5] = [0, 2, 4] \<and>
   csr_matmat_pass2 2 2 [0, 2, 3] [0, 1, 1] [1, 1, 2 :: int] [0, 2, 4] [0, 1, 0, 1] [1, 3, -1, 4]
       [5, 5, 5] [9, 9, 9, 9] [9, 9, 9, 9] =
     ([0, 1, 3], [1, 1, 0, 9], [7, 8, -2, 9]) \<and>
   [0, 2, 4] ! 2 \<le> int (length [9, 9, 9, 9 :: int]) \<and>
   map (\<lambda>jj. ([1, 1, 0, 9] ! jj, [7, 8, -2, 9 :: int] ! jj))
       [nat ([0, 1, 3] ! 0) ..< nat ([0, 1, 3] ! (0 + 1))] =
     coalesce_row (prod_entries [0, 2, 3] [0, 1, 1] [1, 1, 2 :: int] [0, 2, 4] [0, 1, 0, 1] [1, 3, -1, 4] 0) \<and>
   coalesce_row (prod_entries [0, 2, 3] [0, 1, 1] [1, 1, 2 :: int] [0, 2, 4] [0, 1, 0, 1] [1, 3, -1, 4] 0) =
     [(1, 7)] \<and>
   map (\<lambda>jj. ([1, 1, 0, 9] ! jj, [7, 8, -2, 9 :: int] ! jj))
       [nat ([0, 1, 3] ! 1) ..< nat ([0, 1, 3] ! (1 + 1))] =
     coalesce_row (prod_entries [0, 2, 3] [0, 1, 1] [1, 1, 2 :: int] [0, 2, 4] [0, 1, 0, 1] [1, 3, -1, 4] 1) \<and>
   coalesce_row (prod_entries [0, 2, 3] [0, 1, 1] [1, 1, 2 :: int] [0, 2, 4] [0, 1, 0, 1] [1, 3, -1, 4] 1) =
     [(1, 8), (0, -2)] \<and>
   [0, 1, 3 :: int] ! (0 + 1) - [0, 1, 3] ! 0 \<le> [0, 2, 4] ! (0 + 1) - [0, 2, 4] ! 0 \<and>
   [0, 1, 3 :: int] ! (1 + 1) - [0, 1, 3] ! 1 = [0, 2, 4] ! (1 + 1) - [0, 2, 4] ! 1"
proof -
  have v: "csr_valid 2 2 [0, 2, 3] [0, 1, 1] [1, 1, 2 :: int]"
    "csr_valid 2 2 [0, 2, 4] [0, 1, 0, 1] [1, 3, -1, 4 :: int]"
    by (simp_all add: csr_valid_def)
  have l: "length [5, 5, 5 :: int] = 2 + 1" by simp
  have i: "(0::nat) < 2" "(1::nat) < 2" by simp_all
  have p1: "csr_matmat_pass1 2 2 [0, 2, 3] [0, 1, 1] [0, 2, 4] [0, 1, 0, 1] [5, 5, 5] = [0, 2, 4]"
    by code_simp
  have p2: "csr_matmat_pass2 2 2 [0, 2, 3] [0, 1, 1] [1, 1, 2 :: int] [0, 2, 4] [0, 1, 0, 1] [1, 3, -1, 4]
       [5, 5, 5] [9, 9, 9, 9] [9, 9, 9, 9] =
     ([0, 1, 3], [1, 1, 0, 9], [7, 8, -2, 9])"
    by code_simp
  have buf: "[0, 2, 4] ! 2 \<le> int (length [9, 9, 9, 9 :: int])" by simp
  have c: "coalesce_row (prod_entries [0, 2, 3] [0, 1, 1] [1, 1, 2 :: int] [0, 2, 4] [0, 1, 0, 1] [1, 3, -1, 4] 0) =
     [(1, 7)]"
    "coalesce_row (prod_entries [0, 2, 3] [0, 1, 1] [1, 1, 2 :: int] [0, 2, 4] [0, 1, 0, 1] [1, 3, -1, 4] 1) =
     [(1, 8), (0, -2)]"
    by code_simp+
  have r0: "map (\<lambda>jj. ([1, 1, 0, 9] ! jj, [7, 8, -2, 9 :: int] ! jj))
       [nat ([0, 1, 3] ! 0) ..< nat ([0, 1, 3] ! (0 + 1))] =
     coalesce_row (prod_entries [0, 2, 3] [0, 1, 1] [1, 1, 2 :: int] [0, 2, 4] [0, 1, 0, 1] [1, 3, -1, 4] 0)"
    and n0: "[0, 1, 3 :: int] ! (0 + 1) - [0, 1, 3] ! 0 \<le> [0, 2, 4] ! (0 + 1) - [0, 2, 4] ! 0"
    using matmat_pass_counts [OF v l l i(1) p1 p2] buf by blast+
  have r1: "map (\<lambda>jj. ([1, 1, 0, 9] ! jj, [7, 8, -2, 9 :: int] ! jj))
       [nat ([0, 1, 3] ! 1) ..< nat ([0, 1, 3] ! (1 + 1))] =
     coalesce_row (prod_entries [0, 2, 3] [0, 1, 1] [1, 1, 2 :: int] [0, 2, 4] [0, 1, 0, 1] [1, 3, -1, 4] 1)"
    using matmat_pass_counts [OF v l l i(2) p1 p2] buf by blast
  have nz: "\<forall>c\<in>set (prod_cols [0, 2, 3] [0, 1, 1] [0, 2, 4] [0, 1, 0, 1] 1).
      col_sum (prod_entries [0, 2, 3] [0, 1, 1] [1, 1, 2 :: int] [0, 2, 4] [0, 1, 0, 1] [1, 3, -1, 4] 1) c \<noteq> 0"
    by code_simp
  have n1: "[0, 1, 3 :: int] ! (1 + 1) - [0, 1, 3] ! 1 = [0, 2, 4] ! (1 + 1) - [0, 2, 4] ! 1"
    using matmat_pass_counts [OF v l l i(2) p1 p2] nz by blast
  show ?thesis
    using v l i(2) p1 p2 buf c r0 r1 n0 n1 by blast
qed

text \<open>
  C3 as stated fails on the product of the row (1, 1) with the column (1, -1): the
  symbolic count of row 0 is 1, and the numeric pass writes no entry for row 0.
\<close>

theorem matmat_pass_counts_differ:
  "csr_valid 1 2 [0, 2] [0, 1] [1, 1 :: int] \<and> csr_valid 2 1 [0, 1, 2] [0, 0] [1, -1 :: int] \<and>
   csr_matmat_pass1 1 1 [0, 2] [0, 1] [0, 1, 2] [0, 0] [0, 0] = [0, 1] \<and>
   csr_matmat_pass2 1 1 [0, 2] [0, 1] [1, 1 :: int] [0, 1, 2] [0, 0] [1, -1] [0, 0] [0] [0] =
     ([0, 0], [0], [0]) \<and>
   [0, 1 :: int] ! (0 + 1) - [0, 1] ! 0 \<noteq> [0, 0] ! (0 + 1) - [0, 0] ! 0"
  by code_simp


section \<open>The result of the elementwise combination\<close>

lemma csr_binop_csr_eq:
  fixes Ax :: "'a::comm_monoid_add list"
  assumes a: "csr_valid n_row n_col Ap Aj Ax" and b: "csr_valid n_row n_col Bp Bj Bx"
  shows "csr_binop_csr n_row n_col Ap Aj Ax Bp Bj Bx op =
     (ptr_upd (\<lambda>i. binop_out op (row_entries Ap Aj Ax i) (row_entries Bp Bj Bx i)) (replicate (n_row + 1) 0) n_row,
      map fst (rows_cat (\<lambda>i. binop_out op (row_entries Ap Aj Ax i) (row_entries Bp Bj Bx i)) n_row),
      map snd (rows_cat (\<lambda>i. binop_out op (row_entries Ap Aj Ax i) (row_entries Bp Bj Bx i)) n_row))"
  using binop_rows_inv [OF a b, of n_row op] by (simp add: csr_binop_csr_def)

lemma csr_binop_csr_row:
  fixes Ax :: "'a::comm_monoid_add list"
  assumes a: "csr_valid n_row n_col Ap Aj Ax" and b: "csr_valid n_row n_col Bp Bj Bx"
    and i: "i < n_row"
    and c: "csr_binop_csr n_row n_col Ap Aj Ax Bp Bj Bx op = (Cp, Cj, Cx)"
  shows "row_entries Cp Cj Cx i = binop_out op (row_entries Ap Aj Ax i) (row_entries Bp Bj Bx i)"
  using c row_entries_rows_cat [OF i, of "replicate (n_row + 1) 0"
      "\<lambda>i. binop_out op (row_entries Ap Aj Ax i) (row_entries Bp Bj Bx i)"]
  unfolding csr_binop_csr_eq [OF a b] by auto

lemma set_binop_out:
  "set (binop_out op ea eb) =
     {(c, v). c \<in> fst ` set ea \<union> fst ` set eb \<and> v = op (col_sum ea c) (col_sum eb c) \<and> v \<noteq> 0}"
  by (auto simp: binop_out_def set_drain_order image_Un)

lemma distinct_binop_out: "distinct (binop_out op ea eb)"
proof -
  have "distinct (map (\<lambda>c. (c, op (col_sum ea c) (col_sum eb c))) (drain_order (ea @ eb)))"
    by (simp add: distinct_map distinct_drain_order inj_on_def)
  then show ?thesis by (simp add: binop_out_def)
qed

lemma binop_out_plus_commute:
  fixes ea eb :: "(int \<times> 'a::comm_monoid_add) list"
  shows "mset (binop_out (+) ea eb) = mset (binop_out (+) eb ea)"
proof -
  have "set (binop_out (+) ea eb) = set (binop_out (+) eb ea)"
    by (auto simp: set_binop_out add.commute)
  then show ?thesis
    using distinct_binop_out [of "(+)" ea eb] distinct_binop_out [of "(+)" eb ea]
    by (simp add: set_eq_iff_mset_eq_distinct)
qed

lemma mset_csr_triples:
  assumes "\<forall>i<n. mset (row_entries Cp Cj Cx i) = mset (row_entries Cp' Cj' Cx' i)"
  shows "mset (csr_triples n Cp Cj Cx) = mset (csr_triples n Cp' Cj' Cx')"
  using assms
proof (induction n)
  case 0
  then show ?case by (simp add: csr_triples_def)
next
  case (Suc n)
  have "mset (map (\<lambda>(j, v). (int n, j, v)) (row_entries Cp Cj Cx n)) =
        mset (map (\<lambda>(j, v). (int n, j, v)) (row_entries Cp' Cj' Cx' n))"
    using Suc.prems by (metis lessI mset_map)
  moreover have "mset (csr_triples n Cp Cj Cx) = mset (csr_triples n Cp' Cj' Cx')"
    using Suc by simp
  ultimately show ?case by (simp add: csr_triples_def)
qed

text \<open>
  C7: for valid operands of the same shape, \<open>csr_plus_csr\<close> applied to (A, B) and to
  (B, A) returns matrices with the same (row, column, value) triples: the same set, and
  (no triple is stored twice) the same multiset, though not in the same storage order.
\<close>

theorem csr_plus_csr_commutes:
  fixes Ax :: "'a::comm_monoid_add list"
  assumes a: "csr_valid n_row n_col Ap Aj Ax" and b: "csr_valid n_row n_col Bp Bj Bx"
    and c: "csr_plus_csr n_row n_col Ap Aj Ax Bp Bj Bx = (Cp, Cj, Cx)"
    and d: "csr_plus_csr n_row n_col Bp Bj Bx Ap Aj Ax = (Dp, Dj, Dx)"
  shows "set (csr_triples n_row Cp Cj Cx) = set (csr_triples n_row Dp Dj Dx) \<and>
         mset (csr_triples n_row Cp Cj Cx) = mset (csr_triples n_row Dp Dj Dx)"
proof -
  have "mset (row_entries Cp Cj Cx i) = mset (row_entries Dp Dj Dx i)" if i: "i < n_row" for i
    using csr_binop_csr_row [OF a b i c [unfolded csr_plus_csr_def]]
      csr_binop_csr_row [OF b a i d [unfolded csr_plus_csr_def]]
    by (simp add: binop_out_plus_commute)
  then have m: "mset (csr_triples n_row Cp Cj Cx) = mset (csr_triples n_row Dp Dj Dx)"
    by (intro mset_csr_triples) simp
  then show ?thesis by (metis set_mset_mset)
qed

text \<open>
  The theorem on two matrices with one row: \<open>A\<close> holds the columns 0, 1 and \<open>B\<close> the
  columns 2, 0; the two sums store the row in different orders.
\<close>

theorem csr_plus_csr_commutes_witness:
  "csr_valid 1 3 [0, 2] [0, 1] [1, 2 :: int] \<and> csr_valid 1 3 [0, 2] [2, 0] [3, 4 :: int] \<and>
   csr_plus_csr 1 3 [0, 2] [0, 1] [1, 2 :: int] [0, 2] [2, 0] [3, 4] = ([0, 3], [2, 1, 0], [3, 2, 5]) \<and>
   csr_plus_csr 1 3 [0, 2] [2, 0] [3, 4 :: int] [0, 2] [0, 1] [1, 2] = ([0, 3], [1, 0, 2], [2, 5, 3]) \<and>
   set (csr_triples 1 [0, 3] [2, 1, 0] [3, 2, 5 :: int]) = set (csr_triples 1 [0, 3] [1, 0, 2] [2, 5, 3])"
proof -
  have v: "csr_valid 1 3 [0, 2] [0, 1] [1, 2 :: int]" "csr_valid 1 3 [0, 2] [2, 0] [3, 4 :: int]"
    by (simp_all add: csr_valid_def)
  have c: "csr_plus_csr 1 3 [0, 2] [0, 1] [1, 2 :: int] [0, 2] [2, 0] [3, 4] = ([0, 3], [2, 1, 0], [3, 2, 5])"
    by code_simp
  have d: "csr_plus_csr 1 3 [0, 2] [2, 0] [3, 4 :: int] [0, 2] [0, 1] [1, 2] = ([0, 3], [1, 0, 2], [2, 5, 3])"
    by code_simp
  from csr_plus_csr_commutes [OF v c d] v c d show ?thesis
    by blast
qed

text \<open>
  C8: for valid operands, a row \<open>i\<close> and a column \<open>j\<close> stored in row \<open>i\<close> of \<open>A\<close> only,
  with accumulated value \<open>a\<close> there: when the drain loop of row \<open>i\<close> starts, the
  candidate \<open>op(A_row[j], B_row[j])\<close> is \<open>op a 0\<close> (the cell \<open>B_row[j]\<close> holds the literal 0),
  and the output row \<open>i\<close> holds an entry of column \<open>j\<close> exactly when \<open>op a 0\<close> is not
  zero, with the value \<open>op a 0\<close>. For a column stored in row \<open>i\<close> of \<open>B\<close> only, with
  accumulated value \<open>b\<close>, the candidate and the stored value are \<open>op 0 b\<close>.
\<close>

theorem csr_binop_csr_missing_operand:
  fixes Ax :: "'a::comm_monoid_add list"
  assumes a: "csr_valid n_row n_col Ap Aj Ax" and b: "csr_valid n_row n_col Bp Bj Bx"
    and i: "i < n_row"
    and t: "binop_touched Ap Aj Ax Bp Bj Bx i (binop_rows op i n_row n_col Ap Aj Ax Bp Bj Bx) =
              (head, nxt, A_row, B_row, len)"
    and c: "csr_binop_csr n_row n_col Ap Aj Ax Bp Bj Bx op = (Cp, Cj, Cx)"
  shows "(j \<in> fst ` set (row_entries Ap Aj Ax i) \<and> j \<notin> fst ` set (row_entries Bp Bj Bx i) \<longrightarrow>
            binop_result op A_row B_row j = op (col_sum (row_entries Ap Aj Ax i) j) 0 \<and>
            ((j, v) \<in> set (row_entries Cp Cj Cx i) \<longleftrightarrow>
               v = op (col_sum (row_entries Ap Aj Ax i) j) 0 \<and> v \<noteq> 0)) \<and>
         (j \<notin> fst ` set (row_entries Ap Aj Ax i) \<and> j \<in> fst ` set (row_entries Bp Bj Bx i) \<longrightarrow>
            binop_result op A_row B_row j = op 0 (col_sum (row_entries Bp Bj Bx i) j) \<and>
            ((j, v) \<in> set (row_entries Cp Cj Cx i) \<longleftrightarrow>
               v = op 0 (col_sum (row_entries Bp Bj Bx i) j) \<and> v \<noteq> 0))"
proof -
  define ea where "ea = row_entries Ap Aj Ax i"
  define eb where "eb = row_entries Bp Bj Bx i"
  have ra: "in_range n_col (map fst ea)" unfolding ea_def by (rule csr_valid_row_range [OF a i])
  have rb: "in_range n_col (map fst eb)" unfolding eb_def by (rule csr_valid_row_range [OF b i])
  obtain Cp0 Cj0 Cx0 where st: "binop_rows op i n_row n_col Ap Aj Ax Bp Bj Bx =
      (Cp0, Cj0, Cx0, replicate n_col (-1), replicate n_col 0, replicate n_col 0)"
    using binop_rows_inv [OF a b, of i op] i by simp
  obtain nxt' head' where "binop_touched Ap Aj Ax Bp Bj Bx i
       (Cp0, Cj0, Cx0, replicate n_col (-1), replicate n_col 0, replicate n_col 0) =
     (head', nxt', map (\<lambda>c. col_sum ea (int c)) [0..<n_col], map (\<lambda>c. col_sum eb (int c)) [0..<n_col],
      int (length (drain_order (ea @ eb))))"
    using binop_touched_clean [OF ea_def eb_def ra rb, of Cp0 Cj0 Cx0] by blast
  then have rows: "A_row = map (\<lambda>c. col_sum ea (int c)) [0..<n_col]"
    "B_row = map (\<lambda>c. col_sum eb (int c)) [0..<n_col]"
    using t unfolding st by simp_all
  have cell: "binop_result op A_row B_row j = op (col_sum ea j) (col_sum eb j)"
    if "j \<in> fst ` set ea \<union> fst ` set eb"
  proof -
    from that ra rb have "0 \<le> j" "nat j < n_col" by (auto simp: in_range_iff)
    then show ?thesis by (simp add: binop_result_def rows)
  qed
  have out: "set (row_entries Cp Cj Cx i) =
      {(c, v). c \<in> fst ` set ea \<union> fst ` set eb \<and> v = op (col_sum ea c) (col_sum eb c) \<and> v \<noteq> 0}"
    unfolding csr_binop_csr_row [OF a b i c] set_binop_out ea_def eb_def ..
  have za: "col_sum ea j = 0" if "j \<notin> fst ` set ea" using that by (rule col_sum_absent)
  have zb: "col_sum eb j = 0" if "j \<notin> fst ` set eb" using that by (rule col_sum_absent)
  show ?thesis
    unfolding ea_def [symmetric] eb_def [symmetric] out
    using cell za zb by auto
qed

text \<open>
  The theorem with \<open>op = (+)\<close> on a row where column 1 is stored twice in \<open>A\<close> (values 2
  and 3) and not in \<open>B\<close>, and column 2 is stored in \<open>B\<close> only.
\<close>

theorem csr_binop_csr_missing_operand_witness:
  "csr_valid 1 3 [0, 3] [1, 0, 1] [2, 1, 3 :: int] \<and> csr_valid 1 3 [0, 2] [2, 0] [7, 4 :: int] \<and>
   (0::nat) < 1 \<and>
   binop_touched [0, 3] [1, 0, 1] [2, 1, 3 :: int] [0, 2] [2, 0] [7, 4] 0
       (binop_rows (+) 0 1 3 [0, 3] [1, 0, 1] [2, 1, 3 :: int] [0, 2] [2, 0] [7, 4]) =
     (2, [1, -2, 0], [1, 5, 0], [4, 0, 7], 3) \<and>
   csr_binop_csr 1 3 [0, 3] [1, 0, 1] [2, 1, 3 :: int] [0, 2] [2, 0] [7, 4] (+) =
     ([0, 3], [2, 0, 1], [7, 5, 5]) \<and>
   binop_result (+) [1, 5, 0] [4, 0, 7 :: int] 1 = 5 \<and>
   binop_result (+) [1, 5, 0] [4, 0, 7 :: int] 2 = 7 \<and>
   (1, 5) \<in> set (row_entries [0, 3] [2, 0, 1] [7, 5, 5 :: int] 0) \<and>
   (2, 7) \<in> set (row_entries [0, 3] [2, 0, 1] [7, 5, 5 :: int] 0)"
proof -
  have v: "csr_valid 1 3 [0, 3] [1, 0, 1] [2, 1, 3 :: int]" "csr_valid 1 3 [0, 2] [2, 0] [7, 4 :: int]"
    by (simp_all add: csr_valid_def)
  have i: "(0::nat) < 1" by simp
  have t: "binop_touched [0, 3] [1, 0, 1] [2, 1, 3 :: int] [0, 2] [2, 0] [7, 4] 0
       (binop_rows (+) 0 1 3 [0, 3] [1, 0, 1] [2, 1, 3 :: int] [0, 2] [2, 0] [7, 4]) =
     (2, [1, -2, 0], [1, 5, 0], [4, 0, 7], 3)"
    by code_simp
  have c: "csr_binop_csr 1 3 [0, 3] [1, 0, 1] [2, 1, 3 :: int] [0, 2] [2, 0] [7, 4] (+) =
     ([0, 3], [2, 0, 1], [7, 5, 5])"
    by code_simp
  have ra: "row_entries [0, 3] [1, 0, 1] [2, 1, 3 :: int] 0 = [(1, 2), (0, 1), (1, 3)]"
    by code_simp
  have rb: "row_entries [0, 2] [2, 0] [7, 4 :: int] 0 = [(2, 7), (0, 4)]"
    by code_simp
  have s1: "col_sum [(1, 2), (0, 1), (1, 3 :: int)] 1 = 5"
    by (simp add: col_sum_def)
  have s2: "col_sum [(2, 7), (0, 4 :: int)] 2 = 7"
    by (simp add: col_sum_def)
  from csr_binop_csr_missing_operand [OF v i t c, of 1 5] csr_binop_csr_missing_operand [OF v i t c, of 2 7]
  have "binop_result (+) [1, 5, 0] [4, 0, 7 :: int] 1 = 5"
    "binop_result (+) [1, 5, 0] [4, 0, 7 :: int] 2 = 7"
    "(1, 5) \<in> set (row_entries [0, 3] [2, 0, 1] [7, 5, 5 :: int] 0)"
    "(2, 7) \<in> set (row_entries [0, 3] [2, 0, 1] [7, 5, 5 :: int] 0)"
    by (simp_all add: ra rb s1 s2)
  with v i t c show ?thesis by blast
qed

section \<open>Lemmas: the counting sort of csr_tocsc\<close>

subsection \<open>Consecutive index ranges\<close>

lemma concat_spans:
  "(\<And>i. i < n \<Longrightarrow> p i \<le> p (i + 1)) \<Longrightarrow>
   concat (map (\<lambda>i. [p i ..< p (i + 1)]) [0..<n]) = [p 0 ..< p n]"
proof (induction n)
  case 0
  then show ?case by simp
next
  case (Suc n)
  have mono: "p 0 \<le> p n"
    using Suc.prems
  proof (induction n)
    case 0
    then show ?case by simp
  next
    case (Suc m)
    have "p 0 \<le> p m" using Suc by simp
    moreover have "p m \<le> p (m + 1)" using Suc.prems [of m] by simp
    ultimately show ?case by simp
  qed
  have "p n \<le> p (n + 1)" using Suc.prems [of n] by simp
  then have "[p 0 ..< p n] @ [p n ..< p (n + 1)] = [p 0 ..< p (n + 1)]"
    using mono by (metis le_Suc_ex upt_add_eq_append)
  then show ?case using Suc by simp
qed

lemma concat_row_spans:
  assumes v: "csr_valid n_row n_col Ap Aj Ax" and k: "k \<le> n_row"
  shows "concat (map (row_span Ap) [0..<k]) = [0..<nat (Ap ! k)]"
proof -
  have "concat (map (\<lambda>i. [nat (Ap ! i) ..< nat (Ap ! (i + 1))]) [0..<k]) = [nat (Ap ! 0) ..< nat (Ap ! k)]"
  proof (rule concat_spans)
    fix i assume "i < k"
    then show "nat (Ap ! i) \<le> nat (Ap ! (i + 1))"
      using csr_valid_ptr [OF v, of i "i + 1"] k by simp
  qed
  moreover have "Ap ! 0 = 0" using v by (simp add: csr_valid_def)
  moreover have "row_span Ap = (\<lambda>i. [nat (Ap ! i) ..< nat (Ap ! (i + 1))])"
    by (rule ext) (simp add: row_span_def span_def)
  ultimately show ?thesis by simp
qed

subsection \<open>Counting keys\<close>

lemma keys_below_0: "in_range n ks \<Longrightarrow> keys_below ks 0 = 0"
  by (auto simp: keys_below_def in_range_iff filter_empty_conv)

lemma keys_below_all: "in_range n ks \<Longrightarrow> keys_below ks n = length ks"
proof -
  assume "in_range n ks"
  then have "filter (\<lambda>k. k < int n) ks = ks"
    by (auto simp: in_range_iff filter_id_conv)
  then show ?thesis by (simp add: keys_below_def)
qed

lemma keys_below_Suc: "keys_below ks (Suc c) = keys_below ks c + keys_at ks c"
  unfolding keys_below_def keys_at_def
  by (induction ks) auto

lemma keys_below_mono: "c \<le> c' \<Longrightarrow> keys_below ks c \<le> keys_below ks c'"
proof (induction c')
  case 0
  then show ?case by simp
next
  case (Suc c')
  then show ?case by (cases "c = Suc c'") (auto simp: keys_below_Suc)
qed

lemma keys_at_append: "keys_at (ks @ ks') c = keys_at ks c + keys_at ks' c"
  by (simp add: keys_at_def)

lemma length_bucket: "length (bucket P c) = keys_at (map fst P) c"
  unfolding bucket_def keys_at_def by (induction P) auto

lemma length_count_keys_fold [simp]:
  "length (fold (\<lambda>k t. t[nat k := t ! nat k + 1]) ks t) = length t"
  by (induction ks arbitrary: t) auto

lemma nth_count_keys_fold:
  "in_range (length t) ks \<Longrightarrow> c < length t \<Longrightarrow>
   fold (\<lambda>k t. t[nat k := t ! nat k + 1]) ks t ! c = t ! c + int (keys_at ks c)"
proof (induction ks arbitrary: t)
  case Nil
  then show ?case by (simp add: keys_at_def)
next
  case (Cons k ks)
  then have "0 \<le> k" by simp
  then have "int c = k \<longleftrightarrow> c = nat k" by auto
  with Cons show ?case
    by (auto simp: keys_at_def nth_list_update)
qed

lemma count_keys_eq:
  assumes "in_range n (map ((!) keys) [0..<nnz])"
  shows "count_keys keys nnz (replicate n 0) = map (\<lambda>c. int (keys_at (map ((!) keys) [0..<nnz]) c)) [0..<n]"
proof -
  have "count_keys keys nnz (replicate n 0) =
        fold (\<lambda>k t. t[nat k := t ! nat k + 1]) (map ((!) keys) [0..<nnz]) (replicate n 0)"
    by (simp add: count_keys_def fold_map comp_def)
  also have "\<dots> = map (\<lambda>c. int (keys_at (map ((!) keys) [0..<nnz]) c)) [0..<n]"
    using assms by (intro nth_equalityI) (simp_all add: nth_count_keys_fold)
  finally show ?thesis .
qed

lemma cumsum_ptr_eq:
  "in_range n ks \<Longrightarrow> k \<le> n \<Longrightarrow> k \<le> length Bp \<Longrightarrow>
   fold (\<lambda>i (Bp, cumsum). (Bp[i := cumsum], cumsum + map (\<lambda>c. int (keys_at ks c)) [0..<n] ! i)) [0..<k] (Bp, 0) =
     (map (\<lambda>c. int (keys_below ks c)) [0..<k] @ drop k Bp, int (keys_below ks k))"
proof (induction k)
  case 0
  then show ?case by (simp add: keys_below_0)
next
  case (Suc k)
  have "(map (\<lambda>c. int (keys_below ks c)) [0..<k] @ drop k Bp)[k := int (keys_below ks k)] =
        map (\<lambda>c. int (keys_below ks c)) [0..<Suc k] @ drop (Suc k) Bp"
    using Suc.prems by (simp add: list_update_append upd_conv_take_nth_drop Cons_nth_drop_Suc [symmetric]) 
  then show ?case using Suc by (simp add: keys_below_Suc)
qed


subsection \<open>The scatter loop\<close>

lemma bucket_append: "bucket (P @ Q) c = bucket P c @ bucket Q c"
  by (simp add: bucket_def)

lemma bucket_single: "bucket [e] c = (if fst e = int c then [e] else [])"
  by (simp add: bucket_def)

lemma scatter_pos:
  assumes ks: "ks = map fst (P @ e # R)" and rng: "in_range n ks"
  shows "0 \<le> fst e" "nat (fst e) < n"
    "keys_below ks (nat (fst e)) + length (bucket P (nat (fst e))) < keys_below ks (Suc (nat (fst e)))"
    "keys_below ks (Suc (nat (fst e))) \<le> length ks"
proof -
  have "fst e \<in> set ks" by (simp add: ks)
  with rng show k: "0 \<le> fst e" "nat (fst e) < n" by (auto simp: in_range_iff)
  have "keys_at ks (nat (fst e)) =
      keys_at (map fst P) (nat (fst e)) + keys_at [fst e] (nat (fst e)) + keys_at (map fst R) (nat (fst e))"
    unfolding ks by (simp add: keys_at_def)
  moreover have "keys_at [fst e] (nat (fst e)) = 1" using k by (simp add: keys_at_def)
  ultimately show "keys_below ks (nat (fst e)) + length (bucket P (nat (fst e))) <
      keys_below ks (Suc (nat (fst e)))"
    by (simp add: keys_below_Suc length_bucket)
  have "keys_below ks (Suc (nat (fst e))) \<le> keys_below ks n"
    using k by (intro keys_below_mono) simp
  then show "keys_below ks (Suc (nat (fst e))) \<le> length ks"
    using keys_below_all [OF rng] by simp
qed

lemma bucket_room:
  assumes ks: "ks = map fst (P @ e # R)"
  shows "keys_below ks c + length (bucket P c) \<le> keys_below ks (Suc c)"
proof -
  have "keys_at ks c = keys_at (map fst P) c + keys_at (map fst (e # R)) c"
    unfolding ks by (simp add: keys_at_def)
  then show ?thesis by (simp add: keys_below_Suc length_bucket)
qed

lemma scatter_step:
  assumes inv: "scatter_inv n ks P (Bi, Bx, temp)"
    and ks: "ks = map fst (P @ e # R)" and rng: "in_range n ks"
    and len: "length ks \<le> length Bi" "length ks \<le> length Bx"
  shows "scatter_inv n ks (P @ [e]) (scatter e (Bi, Bx, temp))"
proof -
  obtain k r v where e: "e = (k, r, v)" by (cases e) auto
  define c0 where "c0 = nat k"
  define pos where "pos = keys_below ks c0 + length (bucket P c0)"
  have k: "0 \<le> k" "c0 < n" and pos1: "pos < keys_below ks (Suc c0)"
    and pos2: "keys_below ks (Suc c0) \<le> length ks"
    using scatter_pos [OF ks rng] by (simp_all add: e c0_def pos_def)
  have lt: "length temp = n"
    and tc: "\<And>c. c < n \<Longrightarrow> temp ! c = int (keys_below ks c + length (bucket P c))"
    and ac: "\<And>c. c < n \<Longrightarrow> map (\<lambda>jj. (Bi ! jj, Bx ! jj))
               [keys_below ks c ..< keys_below ks c + length (bucket P c)] = map snd (bucket P c)"
    using inv by (auto simp: scatter_inv_def)
  have tpos: "nat (temp ! nat k) = pos"
    using tc [OF k(2)] by (simp add: pos_def c0_def)
  have sc: "scatter e (Bi, Bx, temp) = (Bi[pos := r], Bx[pos := v], temp[c0 := temp ! c0 + 1])"
    by (simp add: scatter_def e tpos) (simp add: c0_def)
  have posB: "pos < length Bi" "pos < length Bx"
    using pos1 pos2 len by linarith+
  have kc: "k = int c \<longleftrightarrow> c = c0" for c
    using k(1) by (auto simp: c0_def)
  have t': "(temp[c0 := temp ! c0 + 1]) ! c = int (keys_below ks c + length (bucket (P @ [e]) c))"
    if c: "c < n" for c
    using c lt tc [OF c] tc [OF k(2)]
    by (cases "c = c0") (simp_all add: bucket_append bucket_single e kc)
  have a': "map (\<lambda>jj. (Bi[pos := r] ! jj, Bx[pos := v] ! jj))
        [keys_below ks c ..< keys_below ks c + length (bucket (P @ [e]) c)] = map snd (bucket (P @ [e]) c)"
    if c: "c < n" for c
  proof (cases "c = c0")
    case True
    have "map (\<lambda>jj. (Bi[pos := r] ! jj, Bx[pos := v] ! jj)) [keys_below ks c0 ..< pos] =
          map (\<lambda>jj. (Bi ! jj, Bx ! jj)) [keys_below ks c0 ..< pos]"
      by (rule map_cong [OF refl]) simp
    then have "map (\<lambda>jj. (Bi[pos := r] ! jj, Bx[pos := v] ! jj)) [keys_below ks c0 ..< pos] =
          map snd (bucket P c0)"
      using ac [OF k(2)] by (simp add: pos_def)
    moreover have "[keys_below ks c0 ..< keys_below ks c0 + length (bucket (P @ [e]) c0)] =
          [keys_below ks c0 ..< pos] @ [pos]"
      by (simp add: bucket_append bucket_single e kc pos_def)
    ultimately show ?thesis
      using posB True by (simp add: bucket_append bucket_single e kc)
  next
    case False
    have b: "bucket (P @ [e]) c = bucket P c"
      using False by (simp add: bucket_append bucket_single e kc)
    have "jj \<noteq> pos" if jj: "jj \<in> set [keys_below ks c ..< keys_below ks c + length (bucket P c)]" for jj
    proof (cases "c < c0")
      case True
      have "keys_below ks c + length (bucket P c) \<le> keys_below ks (Suc c)"
        using bucket_room [OF ks] .
      also have "\<dots> \<le> keys_below ks c0"
        using True by (intro keys_below_mono) simp
      finally show ?thesis using jj by (simp add: pos_def)
    next
      case False
      with \<open>c \<noteq> c0\<close> have "Suc c0 \<le> c" by simp
      then have "keys_below ks (Suc c0) \<le> keys_below ks c" by (rule keys_below_mono)
      then show ?thesis using jj pos1 by simp
    qed
    then have "map (\<lambda>jj. (Bi[pos := r] ! jj, Bx[pos := v] ! jj))
          [keys_below ks c ..< keys_below ks c + length (bucket P c)] =
        map (\<lambda>jj. (Bi ! jj, Bx ! jj)) [keys_below ks c ..< keys_below ks c + length (bucket P c)]"
      by (intro map_cong [OF refl]) (metis nth_list_update_neq)
    then show ?thesis using ac [OF c] by (simp add: b)
  qed
  show ?thesis
    unfolding sc scatter_inv_def using lt t' a' by simp
qed

lemma scatter_step_frame:
  assumes inv: "scatter_inv n ks P (Bi, Bx, temp)"
    and ks: "ks = map fst (P @ e # R)" and rng: "in_range n ks"
  shows "\<exists>Bi' Bx' temp'. scatter e (Bi, Bx, temp) = (Bi', Bx', temp') \<and>
           length Bi' = length Bi \<and> length Bx' = length Bx \<and>
           (\<forall>m\<ge>length ks. Bi' ! m = Bi ! m \<and> Bx' ! m = Bx ! m)"
proof -
  obtain k r v where e: "e = (k, r, v)" by (cases e) auto
  have k: "0 \<le> k" "nat k < n"
    and pos: "keys_below ks (nat k) + length (bucket P (nat k)) < keys_below ks (Suc (nat k))"
      "keys_below ks (Suc (nat k)) \<le> length ks"
    using scatter_pos [OF ks rng] by (simp_all add: e)
  have "temp ! nat k = int (keys_below ks (nat k) + length (bucket P (nat k)))"
    using inv k by (auto simp: scatter_inv_def)
  then have "nat (temp ! nat k) < length ks" using pos by linarith
  then show ?thesis by (auto simp: scatter_def e)
qed

lemma scatter_fold:
  "scatter_inv n ks P (Bi, Bx, temp) \<Longrightarrow> ks = map fst (P @ R) \<Longrightarrow> in_range n ks \<Longrightarrow>
   length ks \<le> length Bi \<Longrightarrow> length ks \<le> length Bx \<Longrightarrow>
   \<exists>Bi' Bx' temp'. fold scatter R (Bi, Bx, temp) = (Bi', Bx', temp') \<and>
     scatter_inv n ks (P @ R) (Bi', Bx', temp') \<and>
     length Bi' = length Bi \<and> length Bx' = length Bx \<and>
     (\<forall>m\<ge>length ks. Bi' ! m = Bi ! m \<and> Bx' ! m = Bx ! m)"
proof (induction R arbitrary: P Bi Bx temp)
  case Nil
  then show ?case by simp
next
  case (Cons e R)
  have ks: "ks = map fst (P @ e # R)" using Cons.prems by simp
  obtain Bi1 Bx1 temp1 where
    s1: "scatter e (Bi, Bx, temp) = (Bi1, Bx1, temp1)"
    and l1: "length Bi1 = length Bi" "length Bx1 = length Bx"
    and f1: "\<forall>m\<ge>length ks. Bi1 ! m = Bi ! m \<and> Bx1 ! m = Bx ! m"
    using scatter_step_frame [OF Cons.prems(1) ks Cons.prems(3)] by blast
  have inv1: "scatter_inv n ks (P @ [e]) (Bi1, Bx1, temp1)"
    using scatter_step [OF Cons.prems(1) ks Cons.prems(3,4,5)] by (simp add: s1)
  have ks1: "ks = map fst ((P @ [e]) @ R)" using ks by simp
  obtain Bi' Bx' temp' where
    "fold scatter R (Bi1, Bx1, temp1) = (Bi', Bx', temp')"
    "scatter_inv n ks ((P @ [e]) @ R) (Bi', Bx', temp')"
    "length Bi' = length Bi1" "length Bx' = length Bx1"
    "\<forall>m\<ge>length ks. Bi' ! m = Bi1 ! m \<and> Bx' ! m = Bx1 ! m"
    using Cons.IH [OF inv1 ks1 Cons.prems(3)] Cons.prems(4,5) l1 by auto
  then show ?case using s1 l1 f1 by simp
qed


subsection \<open>The result of csr_tocsc\<close>

lemma concat_row_spans_ptr:
  assumes "length Ap = n + 1" "Ap ! 0 = 0" "sorted Ap" "k \<le> n"
  shows "concat (map (row_span Ap) [0..<k]) = [0..<nat (Ap ! k)]"
proof -
  have "concat (map (\<lambda>i. [nat (Ap ! i) ..< nat (Ap ! (i + 1))]) [0..<k]) = [nat (Ap ! 0) ..< nat (Ap ! k)]"
  proof (rule concat_spans)
    fix i assume "i < k"
    then have "Ap ! i \<le> Ap ! (i + 1)"
      using assms by (intro sorted_nth_mono) auto
    then show "nat (Ap ! i) \<le> nat (Ap ! (i + 1))" by simp
  qed
  moreover have "row_span Ap = (\<lambda>i. [nat (Ap ! i) ..< nat (Ap ! (i + 1))])"
    by (rule ext) (simp add: row_span_def span_def)
  ultimately show ?thesis using assms(2) by simp
qed

lemma swap_csr_triples:
  "map swap_rc (csr_triples n Ap Aj Ax) =
   concat (map (\<lambda>i. map (\<lambda>j. (Aj ! j, int i, Ax ! j)) (row_span Ap i)) [0..<n])"
  by (simp add: csr_triples_def row_entries_def map_concat comp_def swap_rc_def)

lemma csc_scatter_scatter: "csc_scatter Aj Ax i j s = scatter (Aj ! j, int i, Ax ! j) s"
  by (cases s) (simp add: csc_scatter_def scatter_def Let_def)

lemma fold_csc_scatter:
  "fold (\<lambda>i. fold (csc_scatter Aj Ax i) (row_span Ap i)) rs s =
   fold scatter (concat (map (\<lambda>i. map (\<lambda>j. (Aj ! j, int i, Ax ! j)) (row_span Ap i)) rs)) s"
proof (induction rs arbitrary: s)
  case Nil
  then show ?case by simp
next
  case (Cons i rs)
  have "csc_scatter Aj Ax i = (\<lambda>j. scatter (Aj ! j, int i, Ax ! j))"
    by (intro ext) (rule csc_scatter_scatter)
  then have "fold (csc_scatter Aj Ax i) (row_span Ap i) s =
        fold scatter (map (\<lambda>j. (Aj ! j, int i, Ax ! j)) (row_span Ap i)) s"
    by (simp add: fold_map comp_def)
  then show ?case by (simp add: Cons.IH)
qed

lemma fst_swap_csr_triples:
  "map fst (map swap_rc (csr_triples n Ap Aj Ax)) = map ((!) Aj) (concat (map (row_span Ap) [0..<n]))"
  by (simp add: swap_csr_triples map_concat comp_def)

lemma csr_keys:
  assumes "length Ap = n + 1" "Ap ! 0 = 0" "sorted Ap" "Ap ! n \<le> int (length Aj)"
  shows "map fst (map swap_rc (csr_triples n Ap Aj Ax)) = take (nat (Ap ! n)) Aj"
proof -
  have "map ((!) Aj) [0..<nat (Ap ! n)] = take (nat (Ap ! n)) Aj"
    using assms(4) by (intro nth_equalityI) auto
  then show ?thesis
    by (simp only: fst_swap_csr_triples concat_row_spans_ptr [OF assms(1,2,3) le_refl])
qed

lemma csr_keys_upt:
  assumes "length Ap = n + 1" "Ap ! 0 = 0" "sorted Ap"
  shows "map fst (map swap_rc (csr_triples n Ap Aj Ax)) = map ((!) Aj) [0..<nat (Ap ! n)]"
  by (simp only: fst_swap_csr_triples concat_row_spans_ptr [OF assms le_refl])

lemma csr_valid_keys_range:
  assumes v: "csr_valid n_row n_col Ap Aj Ax"
  shows "in_range n_col (map fst (map swap_rc (csr_triples n_row Ap Aj Ax)))"
proof -
  have "map fst (map swap_rc (csr_triples n_row Ap Aj Ax)) = take (nat (Ap ! n_row)) Aj"
    using v by (intro csr_keys) (auto simp: csr_valid_def)
  then show ?thesis using v by (simp add: in_range_def csr_valid_def)
qed

lemma scatter_inv_start:
  "scatter_inv n ks [] (Bi, Bx, map (\<lambda>c. int (keys_below ks c)) [0..<n])"
  by (simp add: scatter_inv_def bucket_def)

lemma tag_bucket: "map (\<lambda>(j, v). (int c, j, v)) (map snd (bucket es c)) = bucket es c"
  unfolding bucket_def by (induction es) auto

lemma csr_tocsc_eq:
  assumes v: "csr_valid n_row n_col Ap Aj Ax"
    and lb: "length Bp = n_col + 1" "Ap ! n_row \<le> int (length Bi)" "Ap ! n_row \<le> int (length Bx)"
    and es: "es = map swap_rc (csr_triples n_row Ap Aj Ax)"
  shows "\<exists>Bi' Bx'. csr_tocsc n_row n_col Ap Aj Ax Bp Bi Bx =
       (map (\<lambda>c. int (keys_below (map fst es) c)) [0..<n_col + 1], Bi', Bx') \<and>
     length Bi' = length Bi \<and> length Bx' = length Bx \<and>
     (\<forall>m\<ge>nat (Ap ! n_row). Bi' ! m = Bi ! m \<and> Bx' ! m = Bx ! m) \<and>
     (\<forall>c<n_col. map (\<lambda>jj. (Bi' ! jj, Bx' ! jj))
          [keys_below (map fst es) c ..< keys_below (map fst es) (Suc c)] = map snd (bucket es c))"
proof -
  define ks where "ks = map fst es"
  define nnz where "nnz = Ap ! n_row"
  have pv: "length Ap = n_row + 1" "Ap ! 0 = 0" "sorted Ap" "Ap ! n_row \<le> int (length Aj)"
    using v by (auto simp: csr_valid_def)
  have nn: "0 \<le> nnz" using csr_valid_ptr [OF v, of n_row n_row] by (simp add: nnz_def)
  have ks_upt: "ks = map ((!) Aj) [0..<nat nnz]"
    unfolding ks_def es nnz_def by (rule csr_keys_upt [OF pv(1,2,3)])
  have rng: "in_range n_col ks"
    unfolding ks_def es by (rule csr_valid_keys_range [OF v])
  have lks: "length ks = nat nnz" by (simp add: ks_upt)
  have temp: "count_keys Aj (nat nnz) (replicate n_col 0) = map (\<lambda>c. int (keys_at ks c)) [0..<n_col]"
    using count_keys_eq [of n_col Aj "nat nnz"] rng by (simp add: ks_upt)
  have cs: "cumsum_ptr n_col (map (\<lambda>c. int (keys_at ks c)) [0..<n_col]) Bp =
      (map (\<lambda>c. int (keys_below ks c)) [0..<n_col] @ drop n_col Bp, int (keys_below ks n_col))"
    unfolding cumsum_ptr_def using lb(1) by (intro cumsum_ptr_eq [OF rng]) auto
  have bp2: "(map (\<lambda>c. int (keys_below ks c)) [0..<n_col] @ drop n_col Bp)[n_col := nnz] =
      map (\<lambda>c. int (keys_below ks c)) [0..<n_col + 1]"
  proof (rule nth_equalityI)
    show "length ((map (\<lambda>c. int (keys_below ks c)) [0..<n_col] @ drop n_col Bp)[n_col := nnz]) =
          length (map (\<lambda>c. int (keys_below ks c)) [0..<n_col + 1])"
      using lb(1) by simp
  next
    fix i assume "i < length ((map (\<lambda>c. int (keys_below ks c)) [0..<n_col] @ drop n_col Bp)[n_col := nnz])"
    then have i: "i < n_col + 1" using lb(1) by simp
    show "(map (\<lambda>c. int (keys_below ks c)) [0..<n_col] @ drop n_col Bp)[n_col := nnz] ! i =
          map (\<lambda>c. int (keys_below ks c)) [0..<n_col + 1] ! i"
    proof (cases "i = n_col")
      case True
      then show ?thesis
        using lb(1) nn keys_below_all [OF rng] lks by (simp del: upt_Suc)
    next
      case False
      with i have "i < n_col" by simp
      then show ?thesis by (simp add: nth_append del: upt_Suc)
    qed
  qed
  have tk: "take n_col (map (\<lambda>c. int (keys_below ks c)) [0..<n_col + 1]) =
      map (\<lambda>c. int (keys_below ks c)) [0..<n_col]"
    by (simp add: take_map)
  have fl: "fold (\<lambda>i. fold (csc_scatter Aj Ax i) (row_span Ap i)) [0..<n_row] s = fold scatter es s" for s
    by (simp add: fold_csc_scatter es swap_csr_triples)
  have len: "length ks \<le> length Bi" "length ks \<le> length Bx"
    using lb lks nn by (simp_all add: nnz_def)
  obtain Bi' Bx' temp' where
    f: "fold scatter es (Bi, Bx, map (\<lambda>c. int (keys_below ks c)) [0..<n_col]) = (Bi', Bx', temp')"
    and inv: "scatter_inv n_col ks es (Bi', Bx', temp')"
    and l': "length Bi' = length Bi" "length Bx' = length Bx"
    and fr: "\<forall>m\<ge>length ks. Bi' ! m = Bi ! m \<and> Bx' ! m = Bx ! m"
    using scatter_fold [OF scatter_inv_start, of ks es n_col Bi Bx] rng len
    by (auto simp: ks_def)
  have res: "csr_tocsc n_row n_col Ap Aj Ax Bp Bi Bx =
      (map (\<lambda>c. int (keys_below ks c)) [0..<n_col + 1], Bi', Bx')"
    unfolding csr_tocsc_def Let_def nnz_def [symmetric] temp cs
    by (simp only: prod.case bp2 tk fl f)
  have sl: "map (\<lambda>jj. (Bi' ! jj, Bx' ! jj)) [keys_below ks c ..< keys_below ks (Suc c)] = map snd (bucket es c)"
    if "c < n_col" for c
    using inv that by (auto simp: scatter_inv_def keys_below_Suc length_bucket ks_def)
  show ?thesis
    using res l' fr sl unfolding ks_def [symmetric] lks nnz_def by blast
qed


lemma bucket_sort_Suc: "bucket_sort (Suc n) es = bucket_sort n es @ bucket es n"
  by (simp add: bucket_sort_def)

lemma mset_bucket_sort_filter:
  "mset (bucket_sort n es) = mset (filter (\<lambda>e. 0 \<le> fst e \<and> fst e < int n) es)"
proof (induction n)
  case 0
  have "filter (\<lambda>e. 0 \<le> fst e \<and> fst e < int 0) es = []"
    by (simp add: filter_empty_conv)
  then show ?case by (simp add: bucket_sort_def)
next
  case (Suc n)
  have "mset (filter (\<lambda>e. 0 \<le> fst e \<and> fst e < int (Suc n)) es) =
        mset (filter (\<lambda>e. 0 \<le> fst e \<and> fst e < int n) es) + mset (bucket es n)"
    unfolding bucket_def by (induction es) auto
  then show ?case by (simp add: bucket_sort_Suc Suc)
qed

lemma mset_bucket_sort:
  assumes "in_range n (map fst es)"
  shows "mset (bucket_sort n es) = mset es"
proof -
  have "filter (\<lambda>e. 0 \<le> fst e \<and> fst e < int n) es = es"
    using assms by (auto simp: in_range_iff filter_id_conv)
  then show ?thesis by (simp add: mset_bucket_sort_filter)
qed

lemma csr_tocsc_triples:
  assumes v: "csr_valid n_row n_col Ap Aj Ax"
    and lb: "length Bp = n_col + 1" "Ap ! n_row \<le> int (length Bi)" "Ap ! n_row \<le> int (length Bx)"
    and r: "csr_tocsc n_row n_col Ap Aj Ax Bp Bi Bx = (Bp', Bi', Bx')"
  shows "csr_triples n_col Bp' Bi' Bx' = bucket_sort n_col (map swap_rc (csr_triples n_row Ap Aj Ax))"
proof -
  define es where "es = map swap_rc (csr_triples n_row Ap Aj Ax)"
  have bp: "Bp' = map (\<lambda>c. int (keys_below (map fst es) c)) [0..<n_col + 1]"
    and sl: "\<And>c. c < n_col \<Longrightarrow> map (\<lambda>jj. (Bi' ! jj, Bx' ! jj))
          [keys_below (map fst es) c ..< keys_below (map fst es) (Suc c)] = map snd (bucket es c)"
    using csr_tocsc_eq [OF v lb es_def] r by auto
  have "map (\<lambda>(j, v). (int c, j, v)) (row_entries Bp' Bi' Bx' c) = bucket es c" if c: "c < n_col" for c
  proof -
    have "row_span Bp' c = [keys_below (map fst es) c ..< keys_below (map fst es) (Suc c)]"
      using c unfolding bp row_span_def span_def by (simp del: upt_Suc)
    then have "row_entries Bp' Bi' Bx' c = map snd (bucket es c)"
      using sl [OF c] by (simp add: row_entries_def)
    then show ?thesis by (simp only: tag_bucket)
  qed
  then have "map (\<lambda>c. map (\<lambda>(j, v). (int c, j, v)) (row_entries Bp' Bi' Bx' c)) [0..<n_col] =
      map (bucket es) [0..<n_col]"
    by (intro map_cong [OF refl]) simp
  then show ?thesis
    by (simp only: csr_triples_def bucket_sort_def es_def)
qed

lemma csr_triples_Suc:
  "csr_triples (Suc n) Ap Aj Ax =
   csr_triples n Ap Aj Ax @ map (\<lambda>(j, v). (int n, j, v)) (row_entries Ap Aj Ax n)"
  by (simp add: csr_triples_def)

lemma fst_csr_triples: "t \<in> set (csr_triples n Ap Aj Ax) \<Longrightarrow> 0 \<le> fst t \<and> fst t < int n"
  by (auto simp: csr_triples_def)

lemma sorted_rows_csr_triples: "sorted (map fst (csr_triples n Ap Aj Ax))"
proof (induction n)
  case 0
  then show ?case by (simp add: csr_triples_def)
next
  case (Suc n)
  have "sorted (map fst (map (\<lambda>(j, v). (int n, j, v)) (row_entries Ap Aj Ax n)))"
    by (simp add: comp_def case_prod_beta sorted_wrt_iff_nth_less)
  then show ?case
    using Suc fst_csr_triples [of _ n Ap Aj Ax]
    by (fastforce simp: csr_triples_Suc sorted_append)
qed

lemma rows_in_range_csr_triples: "in_range n (map fst (csr_triples n Ap Aj Ax))"
  using fst_csr_triples [of _ n Ap Aj Ax] by (auto simp: in_range_iff)

lemma filter_row_csr_triples:
  "i < n \<Longrightarrow> filter (\<lambda>t. fst t = int i) (csr_triples n Ap Aj Ax) =
     map (\<lambda>(j, v). (int i, j, v)) (row_entries Ap Aj Ax i)"
proof (induction n)
  case 0
  then show ?case by simp
next
  case (Suc n)
  show ?case
  proof (cases "i = n")
    case True
    have "\<forall>t\<in>set (csr_triples n Ap Aj Ax). fst t \<noteq> int n"
      using fst_csr_triples [of _ n Ap Aj Ax] by fastforce
    then have "filter (\<lambda>t. fst t = int n) (csr_triples n Ap Aj Ax) = []"
      by (simp add: filter_empty_conv)
    moreover have "filter (\<lambda>t. fst t = int n) (map (\<lambda>(j, v). (int n, j, v)) (row_entries Ap Aj Ax n)) =
        map (\<lambda>(j, v). (int n, j, v)) (row_entries Ap Aj Ax n)"
      by (auto simp: filter_id_conv)
    ultimately show ?thesis using True by (simp add: csr_triples_Suc)
  next
    case False
    then have "filter (\<lambda>t. fst t = int i) (map (\<lambda>(j, v). (int n, j, v)) (row_entries Ap Aj Ax n)) = []"
      by (auto simp: filter_empty_conv)
    then show ?thesis using False Suc by (simp add: csr_triples_Suc)
  qed
qed

lemma length_csr_triples:
  assumes "length Ap = n + 1" "Ap ! 0 = 0" "sorted Ap" "k \<le> n"
  shows "length (csr_triples k Ap Aj Ax) = nat (Ap ! k)"
proof -
  have "length (csr_triples k Ap Aj Ax) = length (concat (map (row_span Ap) [0..<k]))"
    by (simp add: csr_triples_def row_entries_def length_concat comp_def)
  then show ?thesis by (simp add: concat_row_spans_ptr [OF assms])
qed


lemma swap_rc_swap_rc [simp]: "swap_rc (swap_rc t) = t"
  by (cases t) (simp add: swap_rc_def)

lemma map_swap_rc_twice: "map swap_rc (map swap_rc ts) = ts"
  by (simp add: comp_def)

lemma csr_tocsc_row:
  assumes v: "csr_valid n_row n_col Ap Aj Ax"
    and lb: "length Bp = n_col + 1" "Ap ! n_row \<le> int (length Bi)" "Ap ! n_row \<le> int (length Bx)"
    and r: "csr_tocsc n_row n_col Ap Aj Ax Bp Bi Bx = (Bp', Bi', Bx')"
    and c: "c < n_col"
  shows "row_entries Bp' Bi' Bx' c = map snd (bucket (map swap_rc (csr_triples n_row Ap Aj Ax)) c)"
proof -
  define es where "es = map swap_rc (csr_triples n_row Ap Aj Ax)"
  have bp: "Bp' = map (\<lambda>c. int (keys_below (map fst es) c)) [0..<n_col + 1]"
    and sl: "\<And>c. c < n_col \<Longrightarrow> map (\<lambda>jj. (Bi' ! jj, Bx' ! jj))
          [keys_below (map fst es) c ..< keys_below (map fst es) (Suc c)] = map snd (bucket es c)"
    using csr_tocsc_eq [OF v lb es_def] r by auto
  have "row_span Bp' c = [keys_below (map fst es) c ..< keys_below (map fst es) (Suc c)]"
    using c unfolding bp row_span_def span_def by (simp del: upt_Suc)
  then show ?thesis
    using sl [OF c] by (simp add: row_entries_def es_def)
qed

lemma set_bucket_sort: "set (bucket_sort n es) \<subseteq> set es"
  by (auto simp: bucket_sort_def bucket_def)

lemma csr_tocsc_valid:
  assumes v: "csr_valid n_row n_col Ap Aj Ax"
    and lb: "length Bp = n_col + 1" "Ap ! n_row \<le> int (length Bi)" "Ap ! n_row \<le> int (length Bx)"
    and r: "csr_tocsc n_row n_col Ap Aj Ax Bp Bi Bx = (Bp', Bi', Bx')"
  shows "csr_valid n_col n_row Bp' Bi' Bx'" "Bp' ! n_col = Ap ! n_row"
proof -
  define es where "es = map swap_rc (csr_triples n_row Ap Aj Ax)"
  define ks where "ks = map fst es"
  have bp: "Bp' = map (\<lambda>c. int (keys_below ks c)) [0..<n_col + 1]"
    and ln: "length Bi' = length Bi" "length Bx' = length Bx"
    using csr_tocsc_eq [OF v lb es_def] r by (auto simp: ks_def)
  have rng: "in_range n_col ks"
    unfolding ks_def es_def by (rule csr_valid_keys_range [OF v])
  have pv: "length Ap = n_row + 1" "Ap ! 0 = 0" "sorted Ap" "Ap ! n_row \<le> int (length Aj)"
    using v by (auto simp: csr_valid_def)
  have nn: "0 \<le> Ap ! n_row" using csr_valid_ptr [OF v, of n_row n_row] by simp
  have lks: "length ks = nat (Ap ! n_row)"
    unfolding ks_def es_def by (simp add: length_csr_triples [OF pv(1,2,3) le_refl])
  have p1: "length Bp' = n_col + 1" by (simp add: bp)
  have p2: "Bp' ! 0 = 0" unfolding bp using keys_below_0 [OF rng] by (simp del: upt_Suc)
  have p3: "sorted Bp'"
    unfolding sorted_iff_nth_mono
  proof (intro allI impI)
    fix i j assume ij: "i \<le> j" "j < length Bp'"
    then show "Bp' ! i \<le> Bp' ! j"
      unfolding bp using keys_below_mono [OF ij(1), of ks] by (simp del: upt_Suc)
  qed
  show p4: "Bp' ! n_col = Ap ! n_row"
    unfolding bp using keys_below_all [OF rng] lks nn by (simp del: upt_Suc)
  have p5: "Bp' ! n_col \<le> int (length Bi')" "Bp' ! n_col \<le> int (length Bx')"
    using p4 lb ln by simp_all
  have tr: "csr_triples n_col Bp' Bi' Bx' = bucket_sort n_col es"
    unfolding es_def by (rule csr_tocsc_triples [OF v lb r])
  have "take (nat (Bp' ! n_col)) Bi' = map fst (map swap_rc (csr_triples n_col Bp' Bi' Bx'))"
    by (rule csr_keys [OF p1 p2 p3 p5(1), symmetric])
  then have tk: "take (nat (Bp' ! n_col)) Bi' = map fst (map swap_rc (bucket_sort n_col es))"
    by (simp only: tr)
  have "0 \<le> x \<and> x < int n_row" if "x \<in> set (take (nat (Bp' ! n_col)) Bi')" for x
  proof -
    from that obtain t where t: "t \<in> set (bucket_sort n_col es)" "x = fst (swap_rc t)"
      unfolding tk by auto
    then have "t \<in> set es" using set_bucket_sort by blast
    then obtain u where u: "u \<in> set (csr_triples n_row Ap Aj Ax)" "t = swap_rc u"
      unfolding es_def by auto
    then have "x = fst u" using t by simp
    then show ?thesis using fst_csr_triples [OF u(1)] by simp
  qed
  then have p6: "list_all (\<lambda>j. 0 \<le> j \<and> j < int n_row) (take (nat (Bp' ! n_col)) Bi')"
    by (simp add: list_all_iff)
  show "csr_valid n_col n_row Bp' Bi' Bx'"
    unfolding csr_valid_def using p1 p2 p3 p5 p6 by simp
qed

lemma csr_tocsc_mset:
  assumes v: "csr_valid n_row n_col Ap Aj Ax"
    and lb: "length Bp = n_col + 1" "Ap ! n_row \<le> int (length Bi)" "Ap ! n_row \<le> int (length Bx)"
    and r: "csr_tocsc n_row n_col Ap Aj Ax Bp Bi Bx = (Bp', Bi', Bx')"
  shows "mset (map swap_rc (csr_triples n_col Bp' Bi' Bx')) = mset (csr_triples n_row Ap Aj Ax)"
proof -
  define es where "es = map swap_rc (csr_triples n_row Ap Aj Ax)"
  have tr: "csr_triples n_col Bp' Bi' Bx' = bucket_sort n_col es"
    unfolding es_def by (rule csr_tocsc_triples [OF v lb r])
  have e: "mset (bucket_sort n_col es) = mset es"
    unfolding es_def by (rule mset_bucket_sort [OF csr_valid_keys_range [OF v]])
  have "mset (map swap_rc (bucket_sort n_col es)) = mset (map swap_rc es)"
    using arg_cong [OF e, of "image_mset swap_rc"] by (simp only: mset_map [symmetric])
  then show ?thesis
    by (simp add: tr es_def map_swap_rc_twice del: map_map)
qed

text \<open>
  C10: for a valid matrix and output arrays of sufficient size, \<open>csr_tocsc\<close> fills exactly
  the first \<open>nnz = Ap[n_row]\<close> cells of \<open>Bi\<close> and \<open>Bx\<close> (the last pointer is \<open>nnz\<close>, the
  output holds \<open>nnz\<close> entries, the cells from \<open>nnz\<close> on keep their content); the
  (row, column, value) triples of the output are, as a multiset, those of the input, so
  no duplicate is summed and no zero dropped; and in every output column the row indices
  do not decrease.
\<close>

theorem csr_tocsc_permutes:
  assumes v: "csr_valid n_row n_col Ap Aj Ax"
    and lb: "length Bp = n_col + 1" "Ap ! n_row \<le> int (length Bi)" "Ap ! n_row \<le> int (length Bx)"
    and r: "csr_tocsc n_row n_col Ap Aj Ax Bp Bi Bx = (Bp', Bi', Bx')"
  shows "Bp' ! n_col = Ap ! n_row \<and>
     length (csr_triples n_col Bp' Bi' Bx') = nat (Ap ! n_row) \<and>
     (\<forall>m\<ge>nat (Ap ! n_row). Bi' ! m = Bi ! m \<and> Bx' ! m = Bx ! m) \<and>
     mset (map swap_rc (csr_triples n_col Bp' Bi' Bx')) = mset (csr_triples n_row Ap Aj Ax) \<and>
     (\<forall>c<n_col. sorted (map fst (row_entries Bp' Bi' Bx' c)))"
proof -
  define es where "es = map swap_rc (csr_triples n_row Ap Aj Ax)"
  have vb: "csr_valid n_col n_row Bp' Bi' Bx'" and last: "Bp' ! n_col = Ap ! n_row"
    using csr_tocsc_valid [OF v lb r] by auto
  have "length (csr_triples n_col Bp' Bi' Bx') = nat (Bp' ! n_col)"
    using vb by (intro length_csr_triples) (auto simp: csr_valid_def)
  then have len: "length (csr_triples n_col Bp' Bi' Bx') = nat (Ap ! n_row)"
    by (simp add: last)
  have frame: "\<forall>m\<ge>nat (Ap ! n_row). Bi' ! m = Bi ! m \<and> Bx' ! m = Bx ! m"
    using csr_tocsc_eq [OF v lb es_def] r by auto
  have ms: "mset (map swap_rc (csr_triples n_col Bp' Bi' Bx')) = mset (csr_triples n_row Ap Aj Ax)"
    by (rule csr_tocsc_mset [OF v lb r])
  have srt: "sorted (map fst (row_entries Bp' Bi' Bx' c))" if c: "c < n_col" for c
  proof -
    have "map (\<lambda>e. fst (snd e)) es = map fst (csr_triples n_row Ap Aj Ax)"
      by (simp add: es_def comp_def swap_rc_def case_prod_beta)
    then have "sorted (map (\<lambda>e. fst (snd e)) es)"
      by (simp add: sorted_rows_csr_triples)
    then have "sorted (map (\<lambda>e. fst (snd e)) (filter (\<lambda>e. fst e = int c) es))"
      by (rule sorted_filter)
    then show ?thesis
      by (simp add: csr_tocsc_row [OF v lb r c] es_def [symmetric] bucket_def comp_def)
  qed
  show ?thesis using last len frame ms srt by blast
qed

text \<open>
  The theorem on a matrix with two rows whose first row stores column 2 before column 0,
  the value 0 and a duplicate entry of column 2.
\<close>

theorem csr_tocsc_permutes_witness:
  "csr_valid 2 3 [0, 3, 4] [2, 0, 2, 2] [0, 5, 7, 9 :: int] \<and>
   length [0, 0, 0, 0 :: int] = 3 + 1 \<and>
   csr_tocsc 2 3 [0, 3, 4] [2, 0, 2, 2] [0, 5, 7, 9 :: int] [0, 0, 0, 0] [0, 0, 0, 0] [0, 0, 0, 0] =
     ([0, 1, 1, 4], [0, 0, 0, 1], [5, 0, 7, 9]) \<and>
   [0, 1, 1, 4 :: int] ! 3 = [0, 3, 4] ! 2 \<and>
   mset (map swap_rc (csr_triples 3 [0, 1, 1, 4] [0, 0, 0, 1] [5, 0, 7, 9 :: int])) =
     mset (csr_triples 2 [0, 3, 4] [2, 0, 2, 2] [0, 5, 7, 9 :: int])"
proof -
  have v: "csr_valid 2 3 [0, 3, 4] [2, 0, 2, 2] [0, 5, 7, 9 :: int]"
    by (simp add: csr_valid_def)
  have l: "length [0, 0, 0, 0 :: int] = 3 + 1" "[0, 3, 4] ! 2 \<le> int (length [0, 0, 0, 0 :: int])"
    by simp_all
  have r: "csr_tocsc 2 3 [0, 3, 4] [2, 0, 2, 2] [0, 5, 7, 9 :: int] [0, 0, 0, 0] [0, 0, 0, 0] [0, 0, 0, 0] =
     ([0, 1, 1, 4], [0, 0, 0, 1], [5, 0, 7, 9])"
    by code_simp
  from csr_tocsc_permutes [OF v l(1) l(2) l(2) r] v l r show ?thesis
    by simp
qed


lemma keys_below_mset: "mset ks = mset ks' \<Longrightarrow> keys_below ks c = keys_below ks' c"
proof -
  assume "mset ks = mset ks'"
  then have "mset (filter (\<lambda>k. k < int c) ks) = mset (filter (\<lambda>k. k < int c) ks')"
    by (simp only: mset_filter)
  then show ?thesis unfolding keys_below_def by (metis size_mset)
qed

lemma csr_triples_prefix:
  "i \<le> n \<Longrightarrow> \<exists>rest. csr_triples n Ap Aj Ax = csr_triples i Ap Aj Ax @ rest \<and>
     (\<forall>t\<in>set rest. int i \<le> fst t)"
proof (induction n)
  case 0
  then show ?case by simp
next
  case (Suc n)
  show ?case
  proof (cases "i = Suc n")
    case True
    then show ?thesis by simp
  next
    case False
    with Suc obtain rest where
      "csr_triples n Ap Aj Ax = csr_triples i Ap Aj Ax @ rest" "\<forall>t\<in>set rest. int i \<le> fst t"
      by auto
    moreover have "i \<le> n" using False Suc.prems by simp
    ultimately have "csr_triples (Suc n) Ap Aj Ax =
        csr_triples i Ap Aj Ax @ (rest @ map (\<lambda>(j, v). (int n, j, v)) (row_entries Ap Aj Ax n)) \<and>
      (\<forall>t\<in>set (rest @ map (\<lambda>(j, v). (int n, j, v)) (row_entries Ap Aj Ax n)). int i \<le> fst t)"
      by (auto simp: csr_triples_Suc)
    then show ?thesis by blast
  qed
qed

lemma keys_below_rows:
  assumes v: "csr_valid n_row n_col Ap Aj Ax" and i: "i \<le> n_row"
  shows "int (keys_below (map fst (csr_triples n_row Ap Aj Ax)) i) = Ap ! i"
proof -
  obtain rest where sp: "csr_triples n_row Ap Aj Ax = csr_triples i Ap Aj Ax @ rest"
    and ge: "\<forall>t\<in>set rest. int i \<le> fst t"
    using csr_triples_prefix [OF i] by blast
  have "filter (\<lambda>k. k < int i) (map fst (csr_triples i Ap Aj Ax)) = map fst (csr_triples i Ap Aj Ax)"
    using fst_csr_triples [of _ i Ap Aj Ax] by (auto simp: filter_id_conv)
  moreover have "filter (\<lambda>k. k < int i) (map fst rest) = []"
    using ge by (auto simp: filter_empty_conv)
  ultimately have "keys_below (map fst (csr_triples n_row Ap Aj Ax)) i = length (csr_triples i Ap Aj Ax)"
    unfolding keys_below_def sp by simp
  also have "\<dots> = nat (Ap ! i)"
    using v i by (intro length_csr_triples [of _ n_row]) (auto simp: csr_valid_def)
  finally show ?thesis
    using csr_valid_ptr [OF v, of i i] i by simp
qed

lemma mset_row_of_triples:
  assumes "mset (csr_triples n Cp Cj Cx) = mset (csr_triples n Ap Aj Ax)" "i < n"
  shows "mset (row_entries Cp Cj Cx i) = mset (row_entries Ap Aj Ax i)"
proof -
  have "mset (filter (\<lambda>t. fst t = int i) (csr_triples n Cp Cj Cx)) =
        mset (filter (\<lambda>t. fst t = int i) (csr_triples n Ap Aj Ax))"
    using assms(1) by (simp only: mset_filter)
  then have "mset (map (\<lambda>(j, v). (int i, j, v)) (row_entries Cp Cj Cx i)) =
        mset (map (\<lambda>(j, v). (int i, j, v)) (row_entries Ap Aj Ax i))"
    by (simp only: filter_row_csr_triples [OF assms(2)])
  then have "image_mset snd (mset (map (\<lambda>(j, v). (int i, j, v)) (row_entries Cp Cj Cx i))) =
        image_mset snd (mset (map (\<lambda>(j, v). (int i, j, v)) (row_entries Ap Aj Ax i)))"
    by (rule arg_cong)
  then show ?thesis by (simp add: multiset.map_comp comp_def case_prod_beta)
qed

text \<open>
  C6: for a valid matrix \<open>A\<close> and output arrays of sufficient size, \<open>csr_tocsc\<close> followed
  by \<open>csc_tocsr\<close> returns the pointer array of \<open>A\<close> and a matrix with the same
  (row, column, value) triples as \<open>A\<close>, as a set and as a multiset; every row of the
  result holds the (column, value) entries of the same row of \<open>A\<close>, possibly in another
  order.
\<close>

theorem csr_tocsc_csc_tocsr:
  assumes v: "csr_valid n_row n_col Ap Aj Ax"
    and lb: "length Bp = n_col + 1" "Ap ! n_row \<le> int (length Bi)" "Ap ! n_row \<le> int (length Bx)"
    and lc: "length Cp = n_row + 1" "Ap ! n_row \<le> int (length Cj)" "Ap ! n_row \<le> int (length Cx)"
    and r1: "csr_tocsc n_row n_col Ap Aj Ax Bp Bi Bx = (Bp', Bi', Bx')"
    and r2: "csc_tocsr n_row n_col Bp' Bi' Bx' Cp Cj Cx = (Cp', Cj', Cx')"
  shows "Cp' = Ap \<and>
     set (csr_triples n_row Cp' Cj' Cx') = set (csr_triples n_row Ap Aj Ax) \<and>
     mset (csr_triples n_row Cp' Cj' Cx') = mset (csr_triples n_row Ap Aj Ax) \<and>
     (\<forall>i<n_row. mset (row_entries Cp' Cj' Cx' i) = mset (row_entries Ap Aj Ax i))"
proof -
  have vb: "csr_valid n_col n_row Bp' Bi' Bx'" and last: "Bp' ! n_col = Ap ! n_row"
    using csr_tocsc_valid [OF v lb r1] by auto
  have r2': "csr_tocsc n_col n_row Bp' Bi' Bx' Cp Cj Cx = (Cp', Cj', Cx')"
    using r2 by (simp add: csc_tocsr_def)
  have lc': "length Cp = n_row + 1" "Bp' ! n_col \<le> int (length Cj)" "Bp' ! n_col \<le> int (length Cx)"
    using lc last by simp_all
  have m1: "mset (map swap_rc (csr_triples n_col Bp' Bi' Bx')) = mset (csr_triples n_row Ap Aj Ax)"
    by (rule csr_tocsc_mset [OF v lb r1])
  have m2: "mset (map swap_rc (csr_triples n_row Cp' Cj' Cx')) = mset (csr_triples n_col Bp' Bi' Bx')"
    by (rule csr_tocsc_mset [OF vb lc' r2'])
  have "mset (map swap_rc (map swap_rc (csr_triples n_row Cp' Cj' Cx'))) =
        mset (map swap_rc (csr_triples n_col Bp' Bi' Bx'))"
    using arg_cong [OF m2, of "image_mset swap_rc"] by (simp only: mset_map [symmetric])
  then have ms: "mset (csr_triples n_row Cp' Cj' Cx') = mset (csr_triples n_row Ap Aj Ax)"
    using m1 by (simp only: map_swap_rc_twice)
  then have st: "set (csr_triples n_row Cp' Cj' Cx') = set (csr_triples n_row Ap Aj Ax)"
    by (rule mset_eq_setD)
  have rows: "\<forall>i<n_row. mset (row_entries Cp' Cj' Cx' i) = mset (row_entries Ap Aj Ax i)"
    using mset_row_of_triples [OF ms] by blast
  have cp: "Cp' = map (\<lambda>c. int (keys_below (map fst (map swap_rc (csr_triples n_col Bp' Bi' Bx'))) c)) [0..<n_row + 1]"
    using csr_tocsc_eq [OF vb lc' refl] r2' by auto
  have "mset (map fst (map swap_rc (csr_triples n_col Bp' Bi' Bx'))) = mset (map fst (csr_triples n_row Ap Aj Ax))"
    using arg_cong [OF m1, of "image_mset fst"] by (simp only: mset_map [symmetric])
  then have kb: "keys_below (map fst (map swap_rc (csr_triples n_col Bp' Bi' Bx'))) c =
      keys_below (map fst (csr_triples n_row Ap Aj Ax)) c" for c
    by (rule keys_below_mset)
  have "Cp' = Ap"
  proof (rule nth_equalityI)
    show "length Cp' = length Ap" using v by (simp add: cp csr_valid_def)
  next
    fix i assume "i < length Cp'"
    then have i: "i \<le> n_row" by (simp add: cp)
    then have "Cp' ! i = int (keys_below (map fst (csr_triples n_row Ap Aj Ax)) i)"
      unfolding cp by (simp add: kb del: upt_Suc map_map)
    then show "Cp' ! i = Ap ! i" by (simp add: keys_below_rows [OF v i])
  qed
  with st ms rows show ?thesis by blast
qed

text \<open>
  The theorem on a matrix whose first row stores column 2 before column 0: the round
  trip returns the row with its columns in ascending order.
\<close>

theorem csr_tocsc_csc_tocsr_witness:
  "csr_valid 2 3 [0, 2, 3] [2, 0, 1] [1, 2, 3 :: int] \<and>
   length [0, 0, 0, 0 :: int] = 3 + 1 \<and> length [0, 0, 0 :: int] = 2 + 1 \<and>
   csr_tocsc 2 3 [0, 2, 3] [2, 0, 1] [1, 2, 3 :: int] [0, 0, 0, 0] [0, 0, 0] [0, 0, 0] =
     ([0, 1, 2, 3], [0, 1, 0], [2, 3, 1]) \<and>
   csc_tocsr 2 3 [0, 1, 2, 3] [0, 1, 0] [2, 3, 1 :: int] [0, 0, 0] [0, 0, 0] [0, 0, 0] =
     ([0, 2, 3], [0, 2, 1], [2, 1, 3]) \<and>
   [0, 2, 3] = [0, 2, 3 :: int] \<and>
   set (csr_triples 2 [0, 2, 3] [0, 2, 1] [2, 1, 3 :: int]) =
     set (csr_triples 2 [0, 2, 3] [2, 0, 1] [1, 2, 3 :: int])"
proof -
  have v: "csr_valid 2 3 [0, 2, 3] [2, 0, 1] [1, 2, 3 :: int]"
    by (simp add: csr_valid_def)
  have l: "length [0, 0, 0, 0 :: int] = 3 + 1" "length [0, 0, 0 :: int] = 2 + 1"
    "[0, 2, 3] ! 2 \<le> int (length [0, 0, 0 :: int])"
    by simp_all
  have r1: "csr_tocsc 2 3 [0, 2, 3] [2, 0, 1] [1, 2, 3 :: int] [0, 0, 0, 0] [0, 0, 0] [0, 0, 0] =
     ([0, 1, 2, 3], [0, 1, 0], [2, 3, 1])"
    by code_simp
  have r2: "csc_tocsr 2 3 [0, 1, 2, 3] [0, 1, 0] [2, 3, 1 :: int] [0, 0, 0] [0, 0, 0] [0, 0, 0] =
     ([0, 2, 3], [0, 2, 1], [2, 1, 3])"
    by code_simp
  from csr_tocsc_csc_tocsr [OF v l(1) l(3) l(3) l(2) l(3) l(3) r1 r2] v l r1 r2 show ?thesis
    by simp
qed


end
